theory Spec2Isabelle
  imports Main
begin

section \<open>Characters and streams\<close>

text \<open>
  The input stream is the list of characters not yet read; \<open>in.get(c)\<close> takes the head
  and fails on the empty list, after which every later read fails as well.  The output
  stream is the list of characters written so far.  The error channel \<open>std::cerr\<close> is
  the list of diagnostics written so far.
\<close>

definition PP_START :: char where
  "PP_START = CHR ''#''"

definition NL :: char where
  "NL = CHR 0x0A"

definition NUL :: char where
  "NUL = CHR 0x00"

text \<open>\<open>std::isspace\<close> in the "C" locale: space, \<open>\t\<close>, \<open>\n\<close>, \<open>\v\<close>, \<open>\f\<close>, \<open>\r\<close>.\<close>

definition isspace :: "char \<Rightarrow> bool" where
  "isspace c = (c = CHR '' '' \<or> c = CHR 0x09 \<or> c = CHR 0x0A \<or> c = CHR 0x0B
                \<or> c = CHR 0x0C \<or> c = CHR 0x0D)"

datatype Diagnostic =
    AndOperatorWarning
  | OrOperatorWarning
  | Expected_but_got string string
  | ExpectedCondition
  | DefineWithoutTag
  | UndefWithoutTag

record Context =
  Tags :: "string set"
  Depth :: nat

record State =
  inp :: string
  outp :: string
  cerr :: "Diagnostic list"
  ctxt :: Context

section \<open>Directive scanner\<close>

datatype Operation = Op_If | Op_Elif | Op_Else | Op_Endif | Op_Define | Op_Undef | Op_Unknown

definition MAX_BUF_SIZE :: nat where
  "MAX_BUF_SIZE = 16"

text \<open>
  The loop of \<open>extract_operation\<close>.  The counter is the length of the buffer.  The loop
  condition tests the counter before it reads, so that no character is read once the
  buffer is full.
\<close>

fun extract_loop :: "string \<Rightarrow> bool \<Rightarrow> string \<Rightarrow> string \<times> string" where
  "extract_loop buffer started [] = (buffer, [])"
| "extract_loop buffer started (c # s) =
     (if length buffer < MAX_BUF_SIZE then
        (if c = NL then (buffer, s)
         else if \<not> isspace c then extract_loop (buffer @ [c]) True s
         else if started then (buffer, s)
         else extract_loop buffer started s)
      else (buffer, c # s))"

text \<open>The buffer is read back as a C string (\<open>strcmp\<close>, \<open>strlen\<close>): up to the first NUL.\<close>

definition c_str :: "string \<Rightarrow> string" where
  "c_str buffer = takeWhile (\<lambda>c. c \<noteq> NUL) buffer"

definition extract_operation :: "string \<Rightarrow> Operation \<times> string \<times> string" where
  "extract_operation s =
     (case extract_loop [] False s of (buffer, s') \<Rightarrow>
        (let name = c_str buffer in
         (if name = ''if'' then Op_If
          else if name = ''elif'' then Op_Elif
          else if name = ''else'' then Op_Else
          else if name = ''endif'' then Op_Endif
          else if name = ''define'' then Op_Define
          else if name = ''undef'' then Op_Undef
          else Op_Unknown,
          name, s')))"

section \<open>Tags: \<open>define\<close> and \<open>undef\<close>\<close>

fun get_tag_loop :: "string \<Rightarrow> bool \<Rightarrow> string \<Rightarrow> string \<times> string" where
  "get_tag_loop buffer started [] = (buffer, [])"
| "get_tag_loop buffer started (c # s) =
     (if c = NL then (buffer, s)
      else if \<not> isspace c then get_tag_loop (buffer @ [c]) True s
      else if started then (buffer, s)
      else get_tag_loop buffer started s)"

definition get_tag :: "string \<Rightarrow> string \<times> string" where
  "get_tag s = get_tag_loop [] False s"

definition handle_define :: "State \<Rightarrow> bool \<times> State" where
  "handle_define st =
     (case get_tag (inp st) of (tag, s') \<Rightarrow>
        if tag = [] then (False, st\<lparr>inp := s', cerr := cerr st @ [DefineWithoutTag]\<rparr>)
        else (True, st\<lparr>inp := s', ctxt := (ctxt st)\<lparr>Tags := insert tag (Tags (ctxt st))\<rparr>\<rparr>))"

definition handle_undef :: "State \<Rightarrow> bool \<times> State" where
  "handle_undef st =
     (case get_tag (inp st) of (tag, s') \<Rightarrow>
        if tag = [] then (False, st\<lparr>inp := s', cerr := cerr st @ [UndefWithoutTag]\<rparr>)
        else (True, st\<lparr>inp := s', ctxt := (ctxt st)\<lparr>Tags := Tags (ctxt st) - {tag}\<rparr>\<rparr>))"

section \<open>Expression lexer\<close>

datatype TokenType =
    Tk_Tag | Tk_ParantheseOpen | Tk_ParantheseClose | Tk_And | Tk_Or | Tk_Xor | Tk_Not | Tk_EOS

datatype Token = Token (Type: TokenType) (Tag: string)

record ExprLexer =
  mTokens :: "Token list"
  mPosition :: nat

definition checkAddTag :: "string \<Rightarrow> Token list \<Rightarrow> Token list" where
  "checkAddTag tag tokens = (if tag \<noteq> [] then tokens @ [Token Tk_Tag tag] else tokens)"

text \<open>
  The loop of the constructor of \<open>ExprLexer\<close>: the tag being collected, the tokens so
  far, the error channel and the stream.  After a lone \<open>&\<close> or \<open>|\<close> the character read
  ahead is put back (\<open>in.unget()\<close>), so the loop goes on with the stream it had after the
  operator.  At the end of the stream the read ahead fails and leaves \<open>c\<close> as it was, which
  is the operator character: the token is pushed without a warning.
\<close>

fun lex_loop :: "string \<Rightarrow> Token list \<Rightarrow> Diagnostic list \<Rightarrow> string
    \<Rightarrow> Token list \<times> Diagnostic list \<times> string" where
  "lex_loop tag tokens err [] = (checkAddTag tag tokens, err, [])"
| "lex_loop tag tokens err (c # s) =
     (if c = NL then (checkAddTag tag tokens, err, s)
      else if isspace c then lex_loop [] (checkAddTag tag tokens) err s
      else if c = CHR ''!'' then
        lex_loop [] (checkAddTag tag tokens @ [Token Tk_Not []]) err s
      else if c = CHR ''^'' then
        lex_loop [] (checkAddTag tag tokens @ [Token Tk_Xor []]) err s
      else if c = CHR ''('' then
        lex_loop [] (checkAddTag tag tokens @ [Token Tk_ParantheseOpen []]) err s
      else if c = CHR '')'' then
        lex_loop [] (checkAddTag tag tokens @ [Token Tk_ParantheseClose []]) err s
      else if c = CHR ''&'' then
        (case s of
           [] \<Rightarrow> lex_loop [] (checkAddTag tag tokens @ [Token Tk_And []]) err s
         | d # s' \<Rightarrow>
             if d = CHR ''&'' then
               lex_loop [] (checkAddTag tag tokens @ [Token Tk_And []]) err s'
             else
               lex_loop [] (checkAddTag tag tokens @ [Token Tk_And []])
                 (err @ [AndOperatorWarning]) s)
      else if c = CHR ''|'' then
        (case s of
           [] \<Rightarrow> lex_loop [] (checkAddTag tag tokens @ [Token Tk_Or []]) err s
         | d # s' \<Rightarrow>
             if d = CHR ''|'' then
               lex_loop [] (checkAddTag tag tokens @ [Token Tk_Or []]) err s'
             else
               lex_loop [] (checkAddTag tag tokens @ [Token Tk_Or []])
                 (err @ [OrOperatorWarning]) s)
      else lex_loop (tag @ [c]) tokens err s)"

definition new_ExprLexer :: "Diagnostic list \<Rightarrow> string \<Rightarrow> ExprLexer \<times> Diagnostic list \<times> string" where
  "new_ExprLexer err s =
     (case lex_loop [] [] err s of (tokens, err', s') \<Rightarrow>
        (\<lparr>mTokens = tokens, mPosition = 0\<rparr>, err', s'))"

definition current :: "ExprLexer \<Rightarrow> Token" where
  "current lx =
     (if mPosition lx \<ge> length (mTokens lx) then Token Tk_EOS []
      else mTokens lx ! mPosition lx)"

definition tokenStr :: "TokenType \<Rightarrow> string" where
  "tokenStr type =
     (case type of
        Tk_Tag \<Rightarrow> ''Tag''
      | Tk_ParantheseOpen \<Rightarrow> ''(''
      | Tk_ParantheseClose \<Rightarrow> '')''
      | Tk_And \<Rightarrow> ''&&''
      | Tk_Or \<Rightarrow> ''||''
      | Tk_Xor \<Rightarrow> ''^''
      | Tk_Not \<Rightarrow> ''!''
      | Tk_EOS \<Rightarrow> ''EOS'')"

text \<open>\<open>accept()\<close> without an argument.\<close>

definition accept :: "ExprLexer \<Rightarrow> ExprLexer" where
  "accept lx = lx\<lparr>mPosition := mPosition lx + 1\<rparr>"

text \<open>\<open>accept(type)\<close>: the position moves on whether the token is the expected one or not.\<close>

definition accept_type :: "TokenType \<Rightarrow> ExprLexer \<Rightarrow> Diagnostic list
    \<Rightarrow> bool \<times> ExprLexer \<times> Diagnostic list" where
  "accept_type type lx err =
     (let good = (Type (current lx) = type)
      in (good, lx\<lparr>mPosition := mPosition lx + 1\<rparr>,
          if good then err
          else err @ [Expected_but_got (tokenStr type) (tokenStr (Type (current lx)))]))"

section \<open>Expression parser and evaluator\<close>

function primary_condition :: "Context \<Rightarrow> ExprLexer \<Rightarrow> Diagnostic list
      \<Rightarrow> bool \<times> ExprLexer \<times> Diagnostic list"
  and unary_condition :: "Context \<Rightarrow> ExprLexer \<Rightarrow> Diagnostic list
      \<Rightarrow> bool \<times> ExprLexer \<times> Diagnostic list"
  and binary_condition :: "Context \<Rightarrow> ExprLexer \<Rightarrow> Diagnostic list
      \<Rightarrow> bool \<times> ExprLexer \<times> Diagnostic list"
where
  "primary_condition ctx lx err =
     (if Type (current lx) = Tk_ParantheseOpen then
        (case binary_condition ctx (accept lx) err of (a, lx1, err1) \<Rightarrow>
           (case accept_type Tk_ParantheseClose lx1 err1 of (good, lx2, err2) \<Rightarrow>
              if \<not> good then (False, lx2, err2) else (a, lx2, err2)))
      else
        (let tag = current lx in
         case accept_type Tk_Tag lx err of (good, lx1, err1) \<Rightarrow>
           if \<not> good then (False, lx1, err1) else (Tag tag \<in> Tags ctx, lx1, err1)))"
| "unary_condition ctx lx err =
     (if Type (current lx) = Tk_Not then
        (case unary_condition ctx (accept lx) err of (a, lx1, err1) \<Rightarrow> (\<not> a, lx1, err1))
      else primary_condition ctx lx err)"
| "binary_condition ctx lx err =
     (case unary_condition ctx lx err of (a, lx1, err1) \<Rightarrow>
        if Type (current lx1) = Tk_EOS \<or> Type (current lx1) = Tk_ParantheseClose then
          (a, accept lx1, err1)
        else if Type (current lx1) = Tk_And then
          (case binary_condition ctx (accept lx1) err1 of (b, lx2, err2) \<Rightarrow> (a \<and> b, lx2, err2))
        else if Type (current lx1) = Tk_Or then
          (case binary_condition ctx (accept lx1) err1 of (b, lx2, err2) \<Rightarrow> (a \<or> b, lx2, err2))
        else if Type (current lx1) = Tk_Xor then
          (case binary_condition ctx (accept lx1) err1 of (b, lx2, err2) \<Rightarrow> (a \<noteq> b, lx2, err2))
        else (False, lx1, err1))"
  by pat_completeness auto

text \<open>
  Termination: no call moves the position back, and every recursive call but the first
  one of \<open>binary_condition\<close> and the last one of \<open>unary_condition\<close> comes after a token
  that is not the end of the sequence has been accepted.
\<close>

lemma condition_position_partial:
  "primary_condition_unary_condition_binary_condition_dom (Inl (ctx, lx, err)) \<Longrightarrow>
     mTokens (fst (snd (primary_condition ctx lx err))) = mTokens lx \<and>
     mPosition lx \<le> mPosition (fst (snd (primary_condition ctx lx err)))"
  "primary_condition_unary_condition_binary_condition_dom (Inr (Inl (ctx, lx, err))) \<Longrightarrow>
     mTokens (fst (snd (unary_condition ctx lx err))) = mTokens lx \<and>
     mPosition lx \<le> mPosition (fst (snd (unary_condition ctx lx err)))"
  "primary_condition_unary_condition_binary_condition_dom (Inr (Inr (ctx, lx, err))) \<Longrightarrow>
     mTokens (fst (snd (binary_condition ctx lx err))) = mTokens lx \<and>
     mPosition lx \<le> mPosition (fst (snd (binary_condition ctx lx err)))"
proof (induct rule: primary_condition_unary_condition_binary_condition.pinduct)
  case (1 ctx lx err)
  then show ?case
    by (auto simp: primary_condition.psimps accept_def accept_type_def Let_def split: prod.splits)
next
  case (2 ctx lx err)
  then show ?case
    by (auto simp: unary_condition.psimps accept_def split: prod.splits)
next
  case (3 ctx lx err)
  obtain a lx1 err1 where u: "unary_condition ctx lx err = (a, lx1, err1)"
    by (cases "unary_condition ctx lx err") auto
  from 3(2) u have q: "mTokens lx1 = mTokens lx" "mPosition lx \<le> mPosition lx1"
    by simp_all
  have r: "mTokens (fst (snd (binary_condition ctx (accept lx1) err1))) = mTokens lx \<and>
           mPosition lx \<le> mPosition (fst (snd (binary_condition ctx (accept lx1) err1)))"
    if "Type (current lx1) = Tk_And \<or> Type (current lx1) = Tk_Or \<or> Type (current lx1) = Tk_Xor"
  proof -
    have "mTokens (fst (snd (binary_condition ctx (accept lx1) err1))) = mTokens (accept lx1) \<and>
          mPosition (accept lx1) \<le> mPosition (fst (snd (binary_condition ctx (accept lx1) err1)))"
      using that 3(3)[of a "(lx1, err1)" lx1 err1] 3(4)[of a "(lx1, err1)" lx1 err1]
        3(5)[of a "(lx1, err1)" lx1 err1] u
      by auto
    with q show ?thesis by (simp add: accept_def)
  qed
  show ?case
    using r q u by (auto simp: binary_condition.psimps[OF 3(1)] accept_def split: prod.splits)
qed

termination primary_condition
proof (relation "measure (\<lambda>x. case x of
      Inl (ctx, lx, err) \<Rightarrow> 3 * (length (mTokens lx) - mPosition lx)
    | Inr (Inl (ctx, lx, err)) \<Rightarrow> 3 * (length (mTokens lx) - mPosition lx) + 1
    | Inr (Inr (ctx, lx, err)) \<Rightarrow> 3 * (length (mTokens lx) - mPosition lx) + 2)", goal_cases)
  case 1
  then show ?case by simp
next
  case (2 ctx lx err)
  then show ?case by (auto simp: accept_def current_def split: if_splits)
next
  case (3 ctx lx err)
  then show ?case by (auto simp: accept_def current_def split: if_splits)
next
  case (4 ctx lx err)
  then show ?case by simp
next
  case (5 ctx lx err)
  then show ?case by simp
next
  case (6 ctx lx err x y xa ya)
  then have "fst (snd (unary_condition ctx lx err)) = xa"
    by (metis fst_conv snd_conv)
  with 6 condition_position_partial(2)[of ctx lx err] show ?case
    by (auto simp: accept_def current_def split: if_splits)
next
  case (7 ctx lx err x y xa ya)
  then have "fst (snd (unary_condition ctx lx err)) = xa"
    by (metis fst_conv snd_conv)
  with 7 condition_position_partial(2)[of ctx lx err] show ?case
    by (auto simp: accept_def current_def split: if_splits)
next
  case (8 ctx lx err x y xa ya)
  then have "fst (snd (unary_condition ctx lx err)) = xa"
    by (metis fst_conv snd_conv)
  with 8 condition_position_partial(2)[of ctx lx err] show ?case
    by (auto simp: accept_def current_def split: if_splits)
qed

text \<open>The three equations have a variable pattern: they are unfolded by hand.\<close>

declare primary_condition.simps [simp del] unary_condition.simps [simp del]
  binary_condition.simps [simp del]

text \<open>
  \<open>handle_condition\<close> returns one boolean: the value of the guard.  An empty condition is
  reported and gives \<open>false\<close>.
\<close>

definition handle_condition :: "State \<Rightarrow> bool \<times> State" where
  "handle_condition st =
     (case new_ExprLexer (cerr st) (inp st) of (lexer, err1, s') \<Rightarrow>
        if Type (current lexer) = Tk_EOS then
          (False, st\<lparr>inp := s', cerr := err1 @ [ExpectedCondition]\<rparr>)
        else
          (case binary_condition (ctxt st) lexer err1 of (b, lexer', err2) \<Rightarrow>
             (b, st\<lparr>inp := s', cerr := err2\<rparr>)))"

section \<open>Conditional block interpreter\<close>

text \<open>
  The first statement of \<open>handle_if\<close>, \<open>bool condition = !ignore && handle_condition(in, ctx)\<close>:
  \<open>&&\<close> does not evaluate its right operand when the left one is false.
\<close>

definition handle_if_condition :: "bool \<Rightarrow> State \<Rightarrow> bool \<times> State" where
  "handle_if_condition ignore st = (if ignore then (False, st) else handle_condition st)"

definition enter_block :: "State \<Rightarrow> State" where
  "enter_block st = st\<lparr>ctxt := (ctxt st)\<lparr>Depth := Depth (ctxt st) + 1\<rparr>\<rparr>"

definition leave_block :: "State \<Rightarrow> State" where
  "leave_block st = st\<lparr>ctxt := (ctxt st)\<lparr>Depth := Depth (ctxt st) - 1\<rparr>\<rparr>"

text \<open>The default branch of the two switch statements: an unknown directive is echoed.\<close>

definition echo_directive :: "bool \<Rightarrow> string \<Rightarrow> State \<Rightarrow> State" where
  "echo_directive ignore name st =
     (if \<not> ignore then st\<lparr>outp := outp st @ PP_START # name\<rparr> else st)"

definition put_char :: "bool \<Rightarrow> char \<Rightarrow> State \<Rightarrow> State" where
  "put_char ignore c st = (if \<not> ignore then st\<lparr>outp := outp st @ [c]\<rparr> else st)"

text \<open>
  The loops of \<open>consume\<close>, \<open>consume_next\<close> and \<open>handle_if\<close> call each other, and the loop
  of \<open>handle_if\<close> need not end.  The first argument is fuel: it bounds the number of
  nested calls and loop iterations, and \<open>None\<close> says that it ran out.  \<open>Some\<close> holds what the
  function returns and the state it leaves; \<open>consume_next\<close> also gives the value of its
  reference parameter \<open>next\<close>, which it leaves as it was unless it returns on an
  \<open>elif\<close>, \<open>else\<close> or \<open>endif\<close>.  \<open>handle_if_loop\<close> is the \<open>while\<close> loop of \<open>handle_if\<close>
  with its variables \<open>condition\<close>, \<open>once_true\<close> and \<open>current\<close> (here \<open>cur\<close>); it gives the state at the
  exit of the loop.
\<close>

fun consume :: "nat \<Rightarrow> bool \<Rightarrow> State \<Rightarrow> (bool \<times> State) option"
  and consume_next :: "nat \<Rightarrow> bool \<Rightarrow> Operation \<Rightarrow> State \<Rightarrow> (bool \<times> Operation \<times> State) option"
  and handle_if :: "nat \<Rightarrow> bool \<Rightarrow> State \<Rightarrow> (bool \<times> State) option"
  and handle_if_loop :: "nat \<Rightarrow> bool \<Rightarrow> bool \<Rightarrow> bool \<Rightarrow> Operation \<Rightarrow> State \<Rightarrow> State option"
where
  "consume 0 ignore st = None"
| "consume (Suc n) ignore st =
     (case inp st of
        [] \<Rightarrow> Some (True, st)
      | c # s \<Rightarrow>
          if c = PP_START then
            (case extract_operation s of (op, name, s') \<Rightarrow>
               if op = Op_If then
                 (case handle_if n ignore (st\<lparr>inp := s'\<rparr>) of
                    None \<Rightarrow> None
                  | Some (ok, st') \<Rightarrow> if \<not> ok then Some (False, st') else consume n ignore st')
               else if op = Op_Define then
                 (if ignore then consume n ignore (st\<lparr>inp := s'\<rparr>)
                  else (case handle_define (st\<lparr>inp := s'\<rparr>) of (ok, st') \<Rightarrow>
                          if \<not> ok then Some (False, st') else consume n ignore st'))
               else if op = Op_Undef then
                 (if ignore then consume n ignore (st\<lparr>inp := s'\<rparr>)
                  else (case handle_undef (st\<lparr>inp := s'\<rparr>) of (ok, st') \<Rightarrow>
                          if \<not> ok then Some (False, st') else consume n ignore st'))
               else consume n ignore (echo_directive ignore name (st\<lparr>inp := s'\<rparr>)))
          else consume n ignore (put_char ignore c (st\<lparr>inp := s\<rparr>)))"
| "consume_next 0 ignore next st = None"
| "consume_next (Suc n) ignore next st =
     (case inp st of
        [] \<Rightarrow> Some (True, next, st)
      | c # s \<Rightarrow>
          if c = PP_START then
            (case extract_operation s of (op, name, s') \<Rightarrow>
               if op = Op_If then
                 (case handle_if n ignore (st\<lparr>inp := s'\<rparr>) of
                    None \<Rightarrow> None
                  | Some (ok, st') \<Rightarrow>
                      if \<not> ok then Some (False, next, st') else consume_next n ignore next st')
               else if op = Op_Elif \<or> op = Op_Else \<or> op = Op_Endif then
                 Some (True, op, st\<lparr>inp := s'\<rparr>)
               else if op = Op_Define then
                 (if ignore then consume_next n ignore next (st\<lparr>inp := s'\<rparr>)
                  else (case handle_define (st\<lparr>inp := s'\<rparr>) of (ok, st') \<Rightarrow>
                          if \<not> ok then Some (False, next, st')
                          else consume_next n ignore next st'))
               else if op = Op_Undef then
                 (if ignore then consume_next n ignore next (st\<lparr>inp := s'\<rparr>)
                  else (case handle_undef (st\<lparr>inp := s'\<rparr>) of (ok, st') \<Rightarrow>
                          if \<not> ok then Some (False, next, st')
                          else consume_next n ignore next st'))
               else consume_next n ignore next (echo_directive ignore name (st\<lparr>inp := s'\<rparr>)))
          else consume_next n ignore next (put_char ignore c (st\<lparr>inp := s\<rparr>)))"
| "handle_if 0 ignore st = None"
| "handle_if (Suc n) ignore st =
     (case handle_if_condition ignore st of (condition, st1) \<Rightarrow>
        (case handle_if_loop n ignore condition False Op_If (enter_block st1) of
           None \<Rightarrow> None
         | Some st2 \<Rightarrow> Some (True, leave_block st2)))"
| "handle_if_loop 0 ignore condition once_true cur st = None"
| "handle_if_loop (Suc n) ignore condition once_true cur st =
     (case consume_next n (ignore \<or> once_true \<or> \<not> condition) cur st of
        None \<Rightarrow> None
      | Some (ok, cur', st') \<Rightarrow>
          if \<not> ok then Some st'
          else if cur' = Op_Endif then Some st'
          else
            (let once_true' = (if condition then True else once_true) in
             if once_true' then handle_if_loop n ignore False once_true' cur' st'
             else if cur' = Op_Elif then
               (case handle_condition st' of (condition', st'') \<Rightarrow>
                  handle_if_loop n ignore condition' once_true' cur' st'')
             else handle_if_loop n ignore True once_true' cur' st'))"

text \<open>\<open>parse\<close>: a fresh context with the tags of the options, and nothing written yet.\<close>

definition initial_state :: "string set \<Rightarrow> string \<Rightarrow> State" where
  "initial_state tags input =
     \<lparr>inp = input, outp = [], cerr = [], ctxt = \<lparr>Tags = tags, Depth = 0\<rparr>\<rparr>"

definition parse :: "nat \<Rightarrow> string set \<Rightarrow> string \<Rightarrow> (bool \<times> State) option" where
  "parse n tags input = consume n False (initial_state tags input)"

section \<open>Reference notions for the properties\<close>

text \<open>
  The reading of an operator chain \<open>t\<^sub>0 op\<^sub>1 t\<^sub>1 \<dots> op\<^sub>n t\<^sub>n\<close> of tags that the description of
  the evaluator gives: each operator combines the tag on its left with the value of
  everything on its right.  \<open>chain_tokens\<close> is the token sequence of such a chain.
\<close>

fun combine :: "TokenType \<Rightarrow> bool \<Rightarrow> bool \<Rightarrow> bool" where
  "combine Tk_And a b = (a \<and> b)"
| "combine Tk_Or a b = (a \<or> b)"
| "combine Tk_Xor a b = (a \<noteq> b)"
| "combine _ a b = False"

fun right_fold :: "string set \<Rightarrow> string \<Rightarrow> (TokenType \<times> string) list \<Rightarrow> bool" where
  "right_fold tags t [] = (t \<in> tags)"
| "right_fold tags t ((op, t') # rest) = combine op (t \<in> tags) (right_fold tags t' rest)"

fun chain_tokens :: "string \<Rightarrow> (TokenType \<times> string) list \<Rightarrow> Token list" where
  "chain_tokens t [] = [Token Tk_Tag t]"
| "chain_tokens t ((op, t') # rest) = Token Tk_Tag t # Token op [] # chain_tokens t' rest"

definition is_binary_operator :: "TokenType \<Rightarrow> bool" where
  "is_binary_operator type = (type = Tk_And \<or> type = Tk_Or \<or> type = Tk_Xor)"

text \<open>The last thing written to the error channel is the report of a missing tag.\<close>

definition missing_tag_reported :: "State \<Rightarrow> bool" where
  "missing_tag_reported st =
     (cerr st \<noteq> [] \<and> (last (cerr st) = DefineWithoutTag \<or> last (cerr st) = UndefWithoutTag))"

subsection \<open>Well-formed documents\<close>

text \<open>
  Well-formed input, as a structure.  A body is a sequence of literal texts, \<open>define\<close>
  and \<open>undef\<close> directives and nested blocks; a block is \<open>#if\<close>, a guard, a body and a
  chain; a chain is what follows a branch body: \<open>#endif\<close>, or \<open>#else\<close>, a body and
  \<open>#endif\<close>, or \<open>#elif\<close>, a guard, a body and a chain.  \<open>render_body\<close> is the text of a
  body, each directive on a line of its own.
\<close>

datatype Body =
    End
  | TextItem string Body
  | DefineItem string Body
  | UndefItem string Body
  | IfItem string Body Chain Body
and Chain =
    Endif
  | ElseBranch Body
  | ElifBranch string Body Chain

fun render_body :: "Body \<Rightarrow> string"
  and render_chain :: "Chain \<Rightarrow> string"
where
  "render_body End = []"
| "render_body (TextItem t b) = t @ render_body b"
| "render_body (DefineItem t b) = ''#define '' @ t @ NL # render_body b"
| "render_body (UndefItem t b) = ''#undef '' @ t @ NL # render_body b"
| "render_body (IfItem g b1 ch b) =
     ''#if '' @ g @ NL # render_body b1 @ render_chain ch @ render_body b"
| "render_chain Endif = ''#endif'' @ [NL]"
| "render_chain (ElseBranch b) = ''#else'' @ NL # render_body b @ ''#endif'' @ [NL]"
| "render_chain (ElifBranch g b ch) = ''#elif '' @ g @ NL # render_body b @ render_chain ch"

text \<open>
  What the renderings must not contain to be read back as they were written: a literal
  text has no marker, a tag is a non-empty word without marker, a guard is one line
  without marker.
\<close>

definition wf_text :: "string \<Rightarrow> bool" where
  "wf_text t = (PP_START \<notin> set t)"

definition wf_tag :: "string \<Rightarrow> bool" where
  "wf_tag t = (t \<noteq> [] \<and> list_all (\<lambda>c. \<not> isspace c \<and> c \<noteq> PP_START) t)"

definition wf_guard :: "string \<Rightarrow> bool" where
  "wf_guard g = (NL \<notin> set g \<and> PP_START \<notin> set g)"

fun wf_body :: "Body \<Rightarrow> bool"
  and wf_chain :: "Chain \<Rightarrow> bool"
where
  "wf_body End = True"
| "wf_body (TextItem t b) = (wf_text t \<and> wf_body b)"
| "wf_body (DefineItem t b) = (wf_tag t \<and> wf_body b)"
| "wf_body (UndefItem t b) = (wf_tag t \<and> wf_body b)"
| "wf_body (IfItem g b1 ch b) = (wf_guard g \<and> wf_body b1 \<and> wf_chain ch \<and> wf_body b)"
| "wf_chain Endif = True"
| "wf_chain (ElseBranch b) = wf_body b"
| "wf_chain (ElifBranch g b ch) = (wf_guard g \<and> wf_body b \<and> wf_chain ch)"

text \<open>The value of a guard: what \<open>handle_condition\<close> returns on its line.\<close>

definition guard_value :: "string set \<Rightarrow> string \<Rightarrow> bool" where
  "guard_value tags g =
     fst (handle_condition \<lparr>inp = g @ [NL], outp = [], cerr = [], ctxt = \<lparr>Tags = tags, Depth = 0\<rparr>\<rparr>)"

text \<open>The branch that fires: the first one whose guard is true, \<open>else\<close> catching all.\<close>

fun chain_select :: "string set \<Rightarrow> Chain \<Rightarrow> Body option" where
  "chain_select tags Endif = None"
| "chain_select tags (ElseBranch b) = Some b"
| "chain_select tags (ElifBranch g b ch) = (if guard_value tags g then Some b else chain_select tags ch)"

definition if_select :: "string set \<Rightarrow> string \<Rightarrow> Body \<Rightarrow> Chain \<Rightarrow> Body option" where
  "if_select tags g b ch = (if guard_value tags g then Some b else chain_select tags ch)"

fun has_else :: "Chain \<Rightarrow> bool" where
  "has_else Endif = False"
| "has_else (ElseBranch b) = True"
| "has_else (ElifBranch g b ch) = has_else ch"

text \<open>
  What the description of the interpreter says an active body does to the tags and to
  the output: texts are written, \<open>define\<close> and \<open>undef\<close> change the tags, and of a block
  only the branch that fires is run.
\<close>

fun sem_body :: "Body \<Rightarrow> string set \<times> string \<Rightarrow> string set \<times> string"
  and sem_chain :: "Chain \<Rightarrow> string set \<times> string \<Rightarrow> string set \<times> string"
where
  "sem_body End s = s"
| "sem_body (TextItem t b) s = sem_body b (fst s, snd s @ t)"
| "sem_body (DefineItem t b) s = sem_body b (insert t (fst s), snd s)"
| "sem_body (UndefItem t b) s = sem_body b (fst s - {t}, snd s)"
| "sem_body (IfItem g b1 ch b) s =
     sem_body b (if guard_value (fst s) g then sem_body b1 s else sem_chain ch s)"
| "sem_chain Endif s = s"
| "sem_chain (ElseBranch b) s = sem_body b s"
| "sem_chain (ElifBranch g b ch) s =
     (if guard_value (fst s) g then sem_body b s else sem_chain ch s)"

text \<open>
  Three statements about the interpreter, used in the proofs on chains.  A body is
  scanned: whatever \<open>consume_next\<close> returns from the state after the body, it returns
  from the state before it, given enough fuel; the state after it is what \<open>sem_body\<close>
  says when the scan is active, and differs only in the error channel when it is not.
  A chain is looped: from a branch body on, the loop of \<open>handle_if\<close> reaches the end of
  the block.  A block is handled: \<open>handle_if\<close> returns after it.
\<close>

abbreviation St :: "string \<Rightarrow> string \<Rightarrow> Diagnostic list \<Rightarrow> string set \<Rightarrow> nat \<Rightarrow> State" where
  "St k out e T d \<equiv> \<lparr>inp = k, outp = out, cerr = e, ctxt = \<lparr>Tags = T, Depth = d\<rparr>\<rparr>"

definition body_scanned :: "Body \<Rightarrow> bool" where
  "body_scanned b =
     (\<forall>ign cur k out e T d. \<exists>e'. \<forall>n r.
        consume_next n ign cur
          (St k (snd (if ign then (T, out) else sem_body b (T, out))) e'
             (fst (if ign then (T, out) else sem_body b (T, out))) d) = Some r \<longrightarrow>
        (\<exists>m. consume_next m ign cur (St (render_body b @ k) out e T d) = Some r))"

definition chain_looped :: "Body \<Rightarrow> Chain \<Rightarrow> bool" where
  "chain_looped b ch =
     (\<forall>ign cond once cur k out e T d. \<not> (once \<and> cond) \<longrightarrow>
        (\<exists>e' m. handle_if_loop m ign cond once cur
                   (St (render_body b @ render_chain ch @ k) out e T d) =
           Some (St k
             (snd (if ign then (T, out) else if cond then sem_body b (T, out)
                   else if once then (T, out) else sem_chain ch (T, out))) e'
             (fst (if ign then (T, out) else if cond then sem_body b (T, out)
                   else if once then (T, out) else sem_chain ch (T, out))) d)))"

definition block_handled :: "string \<Rightarrow> Body \<Rightarrow> Chain \<Rightarrow> bool" where
  "block_handled g b ch =
     (\<forall>ign k out e T d.
        (\<exists>e' m. handle_if m ign (St (g @ NL # render_body b @ render_chain ch @ k) out e T d) =
           Some (True, St k
             (snd (if ign then (T, out) else if guard_value T g then sem_body b (T, out)
                   else sem_chain ch (T, out))) e'
             (fst (if ign then (T, out) else if guard_value T g then sem_body b (T, out)
                   else sem_chain ch (T, out))) d)))"

section \<open>Plain text is copied\<close>

lemma consume_plain:
  "PP_START \<notin> set s \<Longrightarrow> inp st = s \<Longrightarrow> length s < n \<Longrightarrow>
     consume n False st = Some (True, st\<lparr>inp := [], outp := outp st @ s\<rparr>)"
proof (induction s arbitrary: n st)
  case Nil
  then obtain m where "n = Suc m" by (cases n) auto
  with Nil show ?case by simp
next
  case (Cons c s)
  then obtain m where n: "n = Suc m" by (cases n) auto
  from Cons.prems have c: "c \<noteq> PP_START" and s: "PP_START \<notin> set s" by auto
  have "consume m False (st\<lparr>inp := s, outp := outp st @ [c]\<rparr>) =
          Some (True, st\<lparr>inp := s, outp := outp st @ [c]\<rparr>\<lparr>inp := [], outp := outp (st\<lparr>inp := s, outp := outp st @ [c]\<rparr>) @ s\<rparr>)"
    using Cons.prems n by (intro Cons.IH[OF s]) auto
  with Cons.prems c n show ?case by (simp add: put_char_def)
qed

text \<open>
  Claim C8.  For every initial tag set and every input without the directive marker,
  the run succeeds and its output is the input, character for character; nothing is
  reported and the context is as it was.  Fuel beyond the length of the input is enough.
\<close>

theorem plain_text_identity:
  "PP_START \<notin> set input \<Longrightarrow> length input < n \<Longrightarrow>
     parse n tags input =
       Some (True, \<lparr>inp = [], outp = input, cerr = [], ctxt = \<lparr>Tags = tags, Depth = 0\<rparr>\<rparr>)"
  using consume_plain[of input "initial_state tags input" n]
  by (simp add: parse_def initial_state_def)

theorem plain_text_identity_witness:
  "PP_START \<notin> set ''a b\<newline>c'' \<and> length ''a b\<newline>c'' < 6 \<and>
   parse 6 {''x''} ''a b\<newline>c'' =
     Some (True, \<lparr>inp = [], outp = ''a b\<newline>c'', cerr = [], ctxt = \<lparr>Tags = {''x''}, Depth = 0\<rparr>\<rparr>)"
  using plain_text_identity[of "''a b\<newline>c''" 6 "{''x''}"]
  by (simp add: PP_START_def)

section \<open>The keyword buffer of the directive scanner\<close>

lemma extract_loop_full:
  "length buffer + length w = MAX_BUF_SIZE \<Longrightarrow> \<forall>c\<in>set w. \<not> isspace c \<Longrightarrow>
     extract_loop buffer started (w @ rest) = (buffer @ w, rest)"
proof (induction w arbitrary: buffer started)
  case Nil
  then show ?case by (cases rest) auto
next
  case (Cons c w)
  from Cons.prems have "c \<noteq> NL" by (auto simp: isspace_def NL_def)
  with Cons.prems Cons.IH[of "buffer @ [c]" True] show ?case by simp
qed

lemma extract_loop_length:
  "length (fst (extract_loop buffer started s)) \<le> max (length buffer) MAX_BUF_SIZE"
  by (induction buffer started s rule: extract_loop.induct) auto

lemma length_c_str: "length (c_str b) \<le> length b"
  by (simp add: c_str_def length_takeWhile_le)

text \<open>
  Claim C7, as amended.  The scanner never returns a keyword longer than 16 characters.
  When the stream starts with 16 characters that are neither whitespace nor NUL, the
  scanner returns exactly these as an unknown directive and reads nothing more: whatever
  follows them, the rest of a longer keyword included, is still on the stream.
\<close>

theorem extract_operation_cap:
  "length (fst (snd (extract_operation s))) \<le> MAX_BUF_SIZE \<and>
   (length w = MAX_BUF_SIZE \<longrightarrow> (\<forall>c\<in>set w. \<not> isspace c \<and> c \<noteq> NUL) \<longrightarrow>
      extract_operation (w @ rest) = (Op_Unknown, w, rest))"
proof
  have "length (c_str (fst (extract_loop [] False s))) \<le> MAX_BUF_SIZE"
    using extract_loop_length[of "[]" False s] length_c_str[of "fst (extract_loop [] False s)"]
    by simp
  then show "length (fst (snd (extract_operation s))) \<le> MAX_BUF_SIZE"
    by (cases "extract_loop [] False s") (simp add: extract_operation_def Let_def)
next
  show "length w = MAX_BUF_SIZE \<longrightarrow> (\<forall>c\<in>set w. \<not> isspace c \<and> c \<noteq> NUL) \<longrightarrow>
      extract_operation (w @ rest) = (Op_Unknown, w, rest)"
  proof (intro impI)
    assume len: "length w = MAX_BUF_SIZE" and ok: "\<forall>c\<in>set w. \<not> isspace c \<and> c \<noteq> NUL"
    then have loop: "extract_loop [] False (w @ rest) = (w, rest)"
      using extract_loop_full[of "[]" w False rest] by simp
    from ok have cs: "c_str w = w" by (simp add: c_str_def)
    from len have "length w = 16" by (simp add: MAX_BUF_SIZE_def)
    then have "w \<noteq> ''if''" "w \<noteq> ''elif''" "w \<noteq> ''else''" "w \<noteq> ''endif''"
      "w \<noteq> ''define''" "w \<noteq> ''undef''" by auto
    with loop cs show "extract_operation (w @ rest) = (Op_Unknown, w, rest)"
      by (simp add: extract_operation_def)
  qed
qed

theorem extract_operation_cap_witness:
  "length ''abcdefghijklmnop'' = MAX_BUF_SIZE \<and>
   list_all (\<lambda>c. \<not> isspace c \<and> c \<noteq> NUL) ''abcdefghijklmnop'' \<and>
   extract_operation (''abcdefghijklmnop'' @ ''qrs tail'') = (Op_Unknown, ''abcdefghijklmnop'', ''qrs tail'')"
  using extract_operation_cap[of "[]" "''abcdefghijklmnop''" "''qrs tail''"]
  by (simp add: MAX_BUF_SIZE_def isspace_def NUL_def)

text \<open>
  Claim C7 as stated fails: of a keyword of 19 characters the scanner reads 16, and the
  other three stay on the stream and reach the output as ordinary text.
\<close>

theorem long_keyword_counterexample:
  "extract_operation ''abcdefghijklmnopqrs tail'' = (Op_Unknown, ''abcdefghijklmnop'', ''qrs tail'') \<and>
   parse 30 {} ''#abcdefghijklmnopqrs tail'' =
     Some (True, \<lparr>inp = [], outp = ''#abcdefghijklmnopqrs tail'', cerr = [],
                  ctxt = \<lparr>Tags = {}, Depth = 0\<rparr>\<rparr>)"
  by code_simp

section \<open>Branch keywords outside a block\<close>

lemma extract_loop_word:
  "\<forall>c\<in>set w. \<not> isspace c \<Longrightarrow> w \<noteq> [] \<or> started \<Longrightarrow>
   length buffer + length w < MAX_BUF_SIZE \<Longrightarrow> isspace d \<Longrightarrow>
     extract_loop buffer started (w @ d # rest) = (buffer @ w, rest)"
proof (induction w arbitrary: buffer started)
  case Nil
  then show ?case by simp
next
  case (Cons c w)
  from Cons.prems have "c \<noteq> NL" by (auto simp: isspace_def NL_def)
  with Cons.prems Cons.IH[of True "buffer @ [c]"] show ?case by simp
qed

lemma extract_loop_word_eof:
  "\<forall>c\<in>set w. \<not> isspace c \<Longrightarrow> length buffer + length w < MAX_BUF_SIZE \<Longrightarrow>
     extract_loop buffer started w = (buffer @ w, [])"
proof (induction w arbitrary: buffer started)
  case Nil
  then show ?case by simp
next
  case (Cons c w)
  from Cons.prems have "c \<noteq> NL" by (auto simp: isspace_def NL_def)
  with Cons.prems Cons.IH[of "buffer @ [c]" True] show ?case by simp
qed

lemma branch_keyword_chars:
  "kw \<in> {''elif'', ''else'', ''endif''} \<Longrightarrow>
     (\<forall>c\<in>set kw. \<not> isspace c) \<and> kw \<noteq> [] \<and> length kw < MAX_BUF_SIZE \<and> c_str kw = kw"
  by (auto simp: isspace_def MAX_BUF_SIZE_def c_str_def NUL_def)

lemma extract_operation_branch_keyword:
  assumes "kw \<in> {''elif'', ''else'', ''endif''}" and "isspace d"
  shows "extract_operation (kw @ d # rest) = (if kw = ''elif'' then Op_Elif else if kw = ''else'' then Op_Else else Op_Endif, kw, rest)"
proof -
  from branch_keyword_chars[OF assms(1)] assms(2)
  have "extract_loop [] False (kw @ d # rest) = ([] @ kw, rest)"
    by (intro extract_loop_word) auto
  moreover have "c_str kw = kw" using branch_keyword_chars[OF assms(1)] by simp
  ultimately show ?thesis using assms(1)
    by (auto simp: extract_operation_def)
qed

lemma extract_operation_branch_keyword_eof:
  assumes "kw \<in> {''elif'', ''else'', ''endif''}"
  shows "extract_operation kw = (if kw = ''elif'' then Op_Elif else if kw = ''else'' then Op_Else else Op_Endif, kw, [])"
proof -
  from branch_keyword_chars[OF assms(1)]
  have "extract_loop [] False kw = ([] @ kw, [])"
    by (intro extract_loop_word_eof) auto
  moreover have "c_str kw = kw" using branch_keyword_chars[OF assms(1)] by simp
  ultimately show ?thesis using assms(1)
    by (auto simp: extract_operation_def)
qed

text \<open>
  Claim C10.  At the top level an \<open>elif\<close>, \<open>else\<close> or \<open>endif\<close> that is followed by a
  whitespace character or by the end of the stream is handled as an unknown directive:
  the marker and the keyword are written when output is active, nothing is reported,
  and \<open>consume\<close> goes on with the rest of the stream.
\<close>

theorem top_level_branch_keyword_echoed:
  "kw \<in> {''elif'', ''else'', ''endif''} \<Longrightarrow>
   (isspace d \<and> inp st = PP_START # kw @ d # rest) \<or> (rest = [] \<and> inp st = PP_START # kw) \<Longrightarrow>
     consume (Suc n) ignore st =
       consume n ignore (if ignore then st\<lparr>inp := rest\<rparr>
                         else st\<lparr>inp := rest, outp := outp st @ PP_START # kw\<rparr>)"
  using extract_operation_branch_keyword[of kw d rest] extract_operation_branch_keyword_eof[of kw]
  by (auto simp: echo_directive_def)

theorem top_level_branch_keyword_echoed_witness:
  "''endif'' \<in> {''elif'', ''else'', ''endif''} \<and> isspace (CHR '' '') \<and>
   inp (initial_state {} ''#endif x'') = PP_START # ''endif'' @ CHR '' '' # ''x'' \<and>
   consume (Suc 2) False (initial_state {} ''#endif x'') =
     Some (True, \<lparr>inp = [], outp = ''#endifx'', cerr = [], ctxt = \<lparr>Tags = {}, Depth = 0\<rparr>\<rparr>)"
  using top_level_branch_keyword_echoed[of "''endif''" "CHR '' ''" "initial_state {} ''#endif x''" "''x''" 2 False]
  by (simp add: isspace_def initial_state_def PP_START_def put_char_def numeral_2_eq_2)

section \<open>Guards that are not evaluated\<close>

lemma consume_next_skip_plain:
  "PP_START \<notin> set g \<Longrightarrow>
     consume_next (length g + m) True cur (st\<lparr>inp := g @ rest\<rparr>) =
     consume_next m True cur (st\<lparr>inp := rest\<rparr>)"
  by (induction g arbitrary: st) (auto simp: put_char_def)

text \<open>
  Claim C4, as amended.  An \<open>if\<close> met while the enclosing context is ignored has a false
  guard that is not evaluated, and the expression lexer is not invoked: the state is
  untouched, the body scan of the block starts on the stream as the directive scanner
  left it, and that scan, which is suppressed, passes over the condition text as over
  any text without the marker.
\<close>

theorem ignored_if_leaves_guard_on_stream:
  "handle_if_condition True st = (False, st) \<and>
   handle_if (Suc n) True st =
     (case handle_if_loop n True False False Op_If (enter_block st) of
        None \<Rightarrow> None
      | Some st2 \<Rightarrow> Some (True, leave_block st2)) \<and>
   (PP_START \<notin> set g \<longrightarrow>
      consume_next (length g + m) True cur (st\<lparr>inp := g @ rest\<rparr>) =
      consume_next m True cur (st\<lparr>inp := rest\<rparr>))"
  using consume_next_skip_plain[where g=g and m=m and cur=cur and st=st and rest=rest]
  by (simp add: handle_if_condition_def)

theorem ignored_if_leaves_guard_on_stream_witness:
  "handle_if_condition True (initial_state {} '' b\<newline>X#endif\<newline>'') =
     (False, initial_state {} '' b\<newline>X#endif\<newline>'') \<and>
   PP_START \<notin> set '' b\<newline>X'' \<and>
   consume_next (length '' b\<newline>X'' + 1) True Op_If (initial_state {} '' b\<newline>X#endif\<newline>'') =
     Some (True, Op_Endif, initial_state {} [])"
  using ignored_if_leaves_guard_on_stream[of "initial_state {} '' b\<newline>X#endif\<newline>''" 0
      "'' b\<newline>X''" 1 Op_If "''#endif\<newline>''"]
  by (simp add: initial_state_def PP_START_def extract_operation_def MAX_BUF_SIZE_def
      NL_def isspace_def c_str_def NUL_def)

text \<open>
  Claim C4 as stated fails: in the ignored case the stream still holds the condition
  line, in the other case it does not.  In the run below the inner \<open>if\<close> is closed by the
  \<open>#endif\<close> of its own condition line, so that \<open>Y\<close> is active text again.
\<close>

theorem ignored_if_guard_counterexample:
  "inp (snd (handle_if_condition True (initial_state {} '' b\<newline>X''))) = '' b\<newline>X'' \<and>
   inp (snd (handle_if_condition False (initial_state {} '' b\<newline>X''))) = ''X'' \<and>
   parse 40 {} ''#if a\<newline>#if b #endif\<newline>X#endif\<newline>Y'' =
     Some (True, \<lparr>inp = [], outp = ''Y'', cerr = [], ctxt = \<lparr>Tags = {}, Depth = 0\<rparr>\<rparr>)"
  by code_simp

text \<open>
  Claim C6.  When the body scan returns on an \<open>elif\<close> and a branch of the chain has fired
  (the one just scanned or an earlier one), the loop goes on with a false condition and
  with the very state the scan left: \<open>handle_condition\<close> is not called, so the guard is
  not evaluated, nothing is reported and its text is still on the stream.  The next
  scan is suppressed, whatever the inherited flag is, and so are all later ones; a
  suppressed scan passes over the guard text as over any text without the marker.
\<close>

theorem elif_after_fired_branch:
  "consume_next n (ignore \<or> once_true \<or> \<not> condition) cur st = Some (True, Op_Elif, st') \<Longrightarrow>
   once_true \<or> condition \<Longrightarrow>
     handle_if_loop (Suc n) ignore condition once_true cur st =
       handle_if_loop n ignore False True Op_Elif st' \<and>
     handle_if_loop (Suc m) ignore False True Op_Elif st' =
       (case consume_next m True Op_Elif st' of
          None \<Rightarrow> None
        | Some (ok, cur', st'') \<Rightarrow>
            if \<not> ok \<or> cur' = Op_Endif then Some st''
            else handle_if_loop m ignore False True cur' st'') \<and>
     (PP_START \<notin> set g \<and> inp st' = g @ rest \<longrightarrow>
        consume_next (length g + m) True Op_Elif st' =
        consume_next m True Op_Elif (st'\<lparr>inp := rest\<rparr>))"
proof (intro conjI impI)
  assume a: "consume_next n (ignore \<or> once_true \<or> \<not> condition) cur st = Some (True, Op_Elif, st')"
    and b: "once_true \<or> condition"
  show "handle_if_loop (Suc n) ignore condition once_true cur st =
       handle_if_loop n ignore False True Op_Elif st'"
    using a b by auto
  show "handle_if_loop (Suc m) ignore False True Op_Elif st' =
       (case consume_next m True Op_Elif st' of
          None \<Rightarrow> None
        | Some (ok, cur', st'') \<Rightarrow>
            if \<not> ok \<or> cur' = Op_Endif then Some st''
            else handle_if_loop m ignore False True cur' st'')"
    by (auto split: option.splits)
next
  assume "PP_START \<notin> set g \<and> inp st' = g @ rest"
  then show "consume_next (length g + m) True Op_Elif st' =
        consume_next m True Op_Elif (st'\<lparr>inp := rest\<rparr>)"
    using consume_next_skip_plain[where g=g and m=m and cur=Op_Elif and st=st' and rest=rest] by (cases st') auto
qed

theorem elif_after_fired_branch_witness:
  "consume_next 3 False Op_If (initial_state {''a''} ''A#elif b\<newline>B#endif\<newline>'') =
     Some (True, Op_Elif, \<lparr>inp = ''b\<newline>B#endif\<newline>'', outp = ''A'', cerr = [],
                            ctxt = \<lparr>Tags = {''a''}, Depth = 0\<rparr>\<rparr>) \<and>
   handle_if_loop (Suc 3) False True False Op_If (initial_state {''a''} ''A#elif b\<newline>B#endif\<newline>'') =
     handle_if_loop 3 False False True Op_Elif
       \<lparr>inp = ''b\<newline>B#endif\<newline>'', outp = ''A'', cerr = [], ctxt = \<lparr>Tags = {''a''}, Depth = 0\<rparr>\<rparr> \<and>
   handle_if_loop (Suc 5) False False True Op_Elif
       \<lparr>inp = ''b\<newline>B#endif\<newline>'', outp = ''A'', cerr = [], ctxt = \<lparr>Tags = {''a''}, Depth = 0\<rparr>\<rparr> =
     Some \<lparr>inp = [], outp = ''A'', cerr = [], ctxt = \<lparr>Tags = {''a''}, Depth = 0\<rparr>\<rparr> \<and>
   consume_next (length ''b\<newline>B'' + 2) True Op_Elif
       \<lparr>inp = ''b\<newline>B#endif\<newline>'', outp = ''A'', cerr = [], ctxt = \<lparr>Tags = {''a''}, Depth = 0\<rparr>\<rparr> =
     consume_next 2 True Op_Elif
       \<lparr>inp = ''#endif\<newline>'', outp = ''A'', cerr = [], ctxt = \<lparr>Tags = {''a''}, Depth = 0\<rparr>\<rparr>"
proof -
  let ?st = "initial_state {''a''} ''A#elif b\<newline>B#endif\<newline>''"
  let ?st' = "\<lparr>inp = ''b\<newline>B#endif\<newline>'', outp = ''A'', cerr = [], ctxt = \<lparr>Tags = {''a''}, Depth = 0\<rparr>\<rparr>"
  have c: "consume_next 3 (False \<or> False \<or> \<not> True) Op_If ?st = Some (True, Op_Elif, ?st')"
    by code_simp
  have p: "PP_START \<notin> set ''b\<newline>B'' \<and> inp ?st' = ''b\<newline>B'' @ ''#endif\<newline>''"
    by (simp add: PP_START_def)
  have r: "consume_next 5 True Op_Elif ?st' =
      Some (True, Op_Endif, \<lparr>inp = [], outp = ''A'', cerr = [], ctxt = \<lparr>Tags = {''a''}, Depth = 0\<rparr>\<rparr>)"
    by code_simp
  note t = elif_after_fired_branch[OF c, of 5 "''b\<newline>B''" "''#endif\<newline>''", simplified]
  note u = elif_after_fired_branch[OF c, of 2 "''b\<newline>B''" "''#endif\<newline>''", simplified]
  from c have 1: "consume_next 3 False Op_If ?st = Some (True, Op_Elif, ?st')" by simp
  from t have 2: "handle_if_loop (Suc 3) False True False Op_If ?st =
      handle_if_loop 3 False False True Op_Elif ?st'" by simp
  from t r have 3: "handle_if_loop (Suc 5) False False True Op_Elif ?st' =
      Some \<lparr>inp = [], outp = ''A'', cerr = [], ctxt = \<lparr>Tags = {''a''}, Depth = 0\<rparr>\<rparr>"
    by simp
  from u p have 4: "consume_next (length ''b\<newline>B'' + 2) True Op_Elif ?st' =
      consume_next 2 True Op_Elif
        \<lparr>inp = ''#endif\<newline>'', outp = ''A'', cerr = [], ctxt = \<lparr>Tags = {''a''}, Depth = 0\<rparr>\<rparr>"
    by simp
  show ?thesis by (intro conjI) (fact 1 2 3 4)+
qed

section \<open>Operator chains\<close>

lemma binary_condition_step:
  assumes "unary_condition ctx lx err = (a, lx1, err1)"
    and "is_binary_operator (Type (current lx1))"
    and "binary_condition ctx (accept lx1) err1 = (b, lx2, err2)"
  shows "binary_condition ctx lx err = (combine (Type (current lx1)) a b, lx2, err2)"
  using assms by (subst binary_condition.simps) (auto simp: is_binary_operator_def)

lemma unary_condition_tag:
  assumes "mPosition lx < length (mTokens lx)" "mTokens lx ! mPosition lx = Token Tk_Tag t"
  shows "unary_condition ctx lx err = (t \<in> Tags ctx, accept lx, err)"
  using assms
  by (simp add: unary_condition.simps primary_condition.simps current_def accept_type_def accept_def)

lemma binary_condition_chain:
  "list_all (\<lambda>(op, t). is_binary_operator op) rest \<Longrightarrow>
   mTokens lx = pre @ chain_tokens t rest \<Longrightarrow> mPosition lx = length pre \<Longrightarrow>
     binary_condition ctx lx err =
       (right_fold (Tags ctx) t rest, lx\<lparr>mPosition := Suc (length (mTokens lx))\<rparr>, err)"
proof (induction rest arbitrary: t pre lx)
  case Nil
  then have u: "unary_condition ctx lx err = (t \<in> Tags ctx, accept lx, err)"
    by (intro unary_condition_tag) auto
  have "Type (current (accept lx)) = Tk_EOS" using Nil by (simp add: current_def accept_def)
  with u Nil show ?case by (subst binary_condition.simps) (simp add: accept_def)
next
  case (Cons x rest)
  obtain op t' where x: "x = (op, t')" by (cases x) auto
  from Cons.prems x have u: "unary_condition ctx lx err = (t \<in> Tags ctx, accept lx, err)"
    by (intro unary_condition_tag) auto
  have cur: "current (accept lx) = Token op []"
    using Cons.prems x by (simp add: current_def accept_def nth_append)
  from Cons.prems x have op: "is_binary_operator op" by simp
  have "binary_condition ctx (accept (accept lx)) err =
          (right_fold (Tags ctx) t' rest,
           (accept (accept lx))\<lparr>mPosition := Suc (length (mTokens (accept (accept lx))))\<rparr>, err)"
    using Cons.prems x
    by (intro Cons.IH[where pre = "pre @ [Token Tk_Tag t, Token op []]"]) (auto simp: accept_def)
  then have b: "binary_condition ctx (accept (accept lx)) err =
          (right_fold (Tags ctx) t' rest, lx\<lparr>mPosition := Suc (length (mTokens lx))\<rparr>, err)"
    by (simp add: accept_def)
  from binary_condition_step[OF u _ b] cur op x show ?case by simp
qed

text \<open>
  Where no parenthesis is involved the evaluator folds from the right.  When the unary
  term read by \<open>binary_condition\<close> is followed by \<open>&&\<close>, \<open>||\<close> or \<open>^\<close>, the result is the value
  of that term combined by the operator with the value of \<open>binary_condition\<close> on
  everything after the operator; a chain of tags evaluates as folded from the right,
  without precedence, and \<open>a && b || c\<close> is true when \<open>a\<close> and \<open>c\<close> are tags of the context
  and \<open>b\<close> is not.
\<close>

lemma tag_chain_right_fold:
  "(unary_condition ctx lx err = (a, lx1, err1) \<and> is_binary_operator (Type (current lx1)) \<and>
    binary_condition ctx (accept lx1) err1 = (b, lx2, err2) \<longrightarrow>
      binary_condition ctx lx err = (combine (Type (current lx1)) a b, lx2, err2)) \<and>
   (list_all (\<lambda>(op, t). is_binary_operator op) rest \<longrightarrow>
      fst (binary_condition ctx \<lparr>mTokens = chain_tokens t rest, mPosition = 0\<rparr> err) =
        right_fold (Tags ctx) t rest) \<and>
   (''a'' \<in> Tags ctx \<and> ''b'' \<notin> Tags ctx \<and> ''c'' \<in> Tags ctx \<longrightarrow>
      fst (handle_condition \<lparr>inp = ''a && b || c'', outp = out, cerr = err, ctxt = ctx\<rparr>))"
proof (intro conjI impI)
  assume "unary_condition ctx lx err = (a, lx1, err1) \<and> is_binary_operator (Type (current lx1)) \<and>
    binary_condition ctx (accept lx1) err1 = (b, lx2, err2)"
  then show "binary_condition ctx lx err = (combine (Type (current lx1)) a b, lx2, err2)"
    using binary_condition_step by blast
next
  assume "list_all (\<lambda>(op, t). is_binary_operator op) rest"
  from binary_condition_chain[OF this, of "\<lparr>mTokens = chain_tokens t rest, mPosition = 0\<rparr>" "[]" t ctx err]
  show "fst (binary_condition ctx \<lparr>mTokens = chain_tokens t rest, mPosition = 0\<rparr> err) =
        right_fold (Tags ctx) t rest" by simp
next
  assume tags: "''a'' \<in> Tags ctx \<and> ''b'' \<notin> Tags ctx \<and> ''c'' \<in> Tags ctx"
  have lex: "new_ExprLexer err ''a && b || c'' =
      (\<lparr>mTokens = chain_tokens ''a'' [(Tk_And, ''b''), (Tk_Or, ''c'')], mPosition = 0\<rparr>, err, [])"
    by (simp add: new_ExprLexer_def checkAddTag_def NL_def isspace_def)
  have "list_all (\<lambda>(op, t). is_binary_operator op) [(Tk_And, ''b''), (Tk_Or, ''c'')]"
    by (simp add: is_binary_operator_def)
  from binary_condition_chain[OF this, of "\<lparr>mTokens = chain_tokens ''a'' [(Tk_And, ''b''), (Tk_Or, ''c'')], mPosition = 0\<rparr>" "[]" "''a''" ctx err]
  have "fst (binary_condition ctx \<lparr>mTokens = chain_tokens ''a'' [(Tk_And, ''b''), (Tk_Or, ''c'')], mPosition = 0\<rparr> err)"
    using tags by simp
  with lex show "fst (handle_condition \<lparr>inp = ''a && b || c'', outp = out, cerr = err, ctxt = ctx\<rparr>)"
    by (auto simp: handle_condition_def current_def split: prod.splits)
qed


lemma tag_chain_right_fold_example:
  "unary_condition \<lparr>Tags = {''c''}, Depth = 0\<rparr>
      \<lparr>mTokens = chain_tokens ''a'' [(Tk_And, ''b''), (Tk_Or, ''c'')], mPosition = 0\<rparr> [] =
     (False, \<lparr>mTokens = chain_tokens ''a'' [(Tk_And, ''b''), (Tk_Or, ''c'')], mPosition = 1\<rparr>, []) \<and>
   binary_condition \<lparr>Tags = {''c''}, Depth = 0\<rparr>
      \<lparr>mTokens = chain_tokens ''a'' [(Tk_And, ''b''), (Tk_Or, ''c'')], mPosition = 2\<rparr> [] =
     (True, \<lparr>mTokens = chain_tokens ''a'' [(Tk_And, ''b''), (Tk_Or, ''c'')], mPosition = 6\<rparr>, []) \<and>
   binary_condition \<lparr>Tags = {''c''}, Depth = 0\<rparr>
      \<lparr>mTokens = chain_tokens ''a'' [(Tk_And, ''b''), (Tk_Or, ''c'')], mPosition = 0\<rparr> [] =
     (False, \<lparr>mTokens = chain_tokens ''a'' [(Tk_And, ''b''), (Tk_Or, ''c'')], mPosition = 6\<rparr>, []) \<and>
   right_fold {''a'', ''c''} ''a'' [(Tk_And, ''b''), (Tk_Or, ''c'')] \<and>
   fst (binary_condition \<lparr>Tags = {''a'', ''c''}, Depth = 0\<rparr>
      \<lparr>mTokens = chain_tokens ''a'' [(Tk_And, ''b''), (Tk_Or, ''c'')], mPosition = 0\<rparr> []) \<and>
   fst (handle_condition (initial_state {''a'', ''c''} ''a && b || c''))"
proof -
  let ?T = "chain_tokens ''a'' [(Tk_And, ''b''), (Tk_Or, ''c'')]"
  let ?C = "\<lparr>Tags = {''c''}, Depth = 0\<rparr>"
  let ?D = "\<lparr>Tags = {''a'', ''c''}, Depth = 0\<rparr>"
  have u: "unary_condition ?C \<lparr>mTokens = ?T, mPosition = 0\<rparr> [] =
      (False, \<lparr>mTokens = ?T, mPosition = 1\<rparr>, [])"
    by code_simp
  have o: "is_binary_operator (Type (current \<lparr>mTokens = ?T, mPosition = 1\<rparr>))"
    by code_simp
  have b: "binary_condition ?C (accept \<lparr>mTokens = ?T, mPosition = 1\<rparr>) [] =
      (True, \<lparr>mTokens = ?T, mPosition = 6\<rparr>, [])"
    by code_simp
  have l: "list_all (\<lambda>(op, t). is_binary_operator op) [(Tk_And, ''b''), (Tk_Or, ''c'')]"
    by code_simp
  have c: "current \<lparr>mTokens = ?T, mPosition = 1\<rparr> = Token Tk_And []"
    by code_simp
  have a: "accept \<lparr>mTokens = ?T, mPosition = 1\<rparr> = \<lparr>mTokens = ?T, mPosition = 2\<rparr>"
    by code_simp
  have "unary_condition ?C \<lparr>mTokens = ?T, mPosition = 0\<rparr> [] =
          (False, \<lparr>mTokens = ?T, mPosition = 1\<rparr>, []) \<and>
        is_binary_operator (Type (current \<lparr>mTokens = ?T, mPosition = 1\<rparr>)) \<and>
        binary_condition ?C (accept \<lparr>mTokens = ?T, mPosition = 1\<rparr>) [] =
          (True, \<lparr>mTokens = ?T, mPosition = 6\<rparr>, []) \<longrightarrow>
        binary_condition ?C \<lparr>mTokens = ?T, mPosition = 0\<rparr> [] =
          (combine (Type (current \<lparr>mTokens = ?T, mPosition = 1\<rparr>)) False True,
           \<lparr>mTokens = ?T, mPosition = 6\<rparr>, [])"
    using tag_chain_right_fold[of ?C "\<lparr>mTokens = ?T, mPosition = 0\<rparr>" "[]" False
      "\<lparr>mTokens = ?T, mPosition = 1\<rparr>" "[]" True "\<lparr>mTokens = ?T, mPosition = 6\<rparr>" "[]"
      "[(Tk_And, ''b''), (Tk_Or, ''c'')]" "''a''" "[]"]
    by (rule conjunct1)
  with u o b have "binary_condition ?C \<lparr>mTokens = ?T, mPosition = 0\<rparr> [] =
          (combine (Type (current \<lparr>mTokens = ?T, mPosition = 1\<rparr>)) False True,
           \<lparr>mTokens = ?T, mPosition = 6\<rparr>, [])"
    by blast
  then have 1: "binary_condition ?C \<lparr>mTokens = ?T, mPosition = 0\<rparr> [] =
      (False, \<lparr>mTokens = ?T, mPosition = 6\<rparr>, [])"
    unfolding c by simp
  have "(list_all (\<lambda>(op, t). is_binary_operator op) [(Tk_And, ''b''), (Tk_Or, ''c'')] \<longrightarrow>
          fst (binary_condition ?D \<lparr>mTokens = ?T, mPosition = 0\<rparr> []) =
            right_fold (Tags ?D) ''a'' [(Tk_And, ''b''), (Tk_Or, ''c'')]) \<and>
        (''a'' \<in> Tags ?D \<and> ''b'' \<notin> Tags ?D \<and> ''c'' \<in> Tags ?D \<longrightarrow>
          fst (handle_condition \<lparr>inp = ''a && b || c'', outp = [], cerr = [], ctxt = ?D\<rparr>))"
    using tag_chain_right_fold[of ?D "\<lparr>mTokens = ?T, mPosition = 0\<rparr>" "[]" False
      "\<lparr>mTokens = ?T, mPosition = 1\<rparr>" "[]" True "\<lparr>mTokens = ?T, mPosition = 6\<rparr>" "[]"
      "[(Tk_And, ''b''), (Tk_Or, ''c'')]" "''a''" "[]"]
    by (rule conjunct2)
  with l have 2: "fst (binary_condition ?D \<lparr>mTokens = ?T, mPosition = 0\<rparr> []) =
        right_fold {''a'', ''c''} ''a'' [(Tk_And, ''b''), (Tk_Or, ''c'')]"
    and 3: "fst (handle_condition (initial_state {''a'', ''c''} ''a && b || c''))"
    by (simp_all add: initial_state_def)
  have 4: "right_fold {''a'', ''c''} ''a'' [(Tk_And, ''b''), (Tk_Or, ''c'')]" by simp
  from b have b': "binary_condition ?C \<lparr>mTokens = ?T, mPosition = 2\<rparr> [] =
      (True, \<lparr>mTokens = ?T, mPosition = 6\<rparr>, [])"
    unfolding a .
  from 2 4 have 5: "fst (binary_condition ?D \<lparr>mTokens = ?T, mPosition = 0\<rparr> [])" by simp
  show ?thesis
    by (intro conjI) (fact u b' 1 4 5 3)+
qed

text \<open>
  Claim C2 fails on the code when the unary term is in parentheses.  After the
  expression inside the parentheses \<open>binary_condition\<close> accepts the closing parenthesis
  itself, so the \<open>accept(ParantheseClose)\<close> of \<open>primary_condition\<close> meets the token after
  it: it reports that token and the term is false.  In \<open>(a) || b\<close> that token is the
  operator, which is thereby consumed; the outer \<open>binary_condition\<close> then sees a tag
  where it looks for an operator and returns false.  So \<open>(a) || b\<close> is false for every
  tag set, where \<open>a || b\<close> is true as soon as one of the tags is defined, and \<open>(a)\<close>
  alone is false for every tag set.
\<close>

theorem parenthesised_term_evaluates_false:
  "handle_condition \<lparr>inp = ''(a) || b'', outp = out, cerr = [], ctxt = ctx\<rparr> =
     (False, \<lparr>inp = [], outp = out, cerr = [Expected_but_got '')'' ''||''], ctxt = ctx\<rparr>) \<and>
   handle_condition \<lparr>inp = ''(a)'', outp = out, cerr = [], ctxt = ctx\<rparr> =
     (False, \<lparr>inp = [], outp = out, cerr = [Expected_but_got '')'' ''EOS''], ctxt = ctx\<rparr>) \<and>
   handle_condition \<lparr>inp = ''a || b'', outp = out, cerr = [], ctxt = ctx\<rparr> =
     (''a'' \<in> Tags ctx \<or> ''b'' \<in> Tags ctx, \<lparr>inp = [], outp = out, cerr = [], ctxt = ctx\<rparr>)"
proof (intro conjI)
  have l: "new_ExprLexer [] ''(a) || b'' =
      (\<lparr>mTokens = [Token Tk_ParantheseOpen [], Token Tk_Tag ''a'', Token Tk_ParantheseClose [],
                     Token Tk_Or [], Token Tk_Tag ''b''], mPosition = 0\<rparr>, [], [])"
    by (simp add: new_ExprLexer_def checkAddTag_def NL_def isspace_def)
  show "handle_condition \<lparr>inp = ''(a) || b'', outp = out, cerr = [], ctxt = ctx\<rparr> =
     (False, \<lparr>inp = [], outp = out, cerr = [Expected_but_got '')'' ''||''], ctxt = ctx\<rparr>)"
    by (simp add: handle_condition_def l current_def accept_def accept_type_def tokenStr_def
        binary_condition.simps unary_condition.simps primary_condition.simps)
next
  have l: "new_ExprLexer [] ''(a)'' =
      (\<lparr>mTokens = [Token Tk_ParantheseOpen [], Token Tk_Tag ''a'', Token Tk_ParantheseClose []],
         mPosition = 0\<rparr>, [], [])"
    by (simp add: new_ExprLexer_def checkAddTag_def NL_def isspace_def)
  show "handle_condition \<lparr>inp = ''(a)'', outp = out, cerr = [], ctxt = ctx\<rparr> =
     (False, \<lparr>inp = [], outp = out, cerr = [Expected_but_got '')'' ''EOS''], ctxt = ctx\<rparr>)"
    by (simp add: handle_condition_def l current_def accept_def accept_type_def tokenStr_def
        binary_condition.simps unary_condition.simps primary_condition.simps)
next
  have l: "new_ExprLexer [] ''a || b'' =
      (\<lparr>mTokens = [Token Tk_Tag ''a'', Token Tk_Or [], Token Tk_Tag ''b''], mPosition = 0\<rparr>, [], [])"
    by (simp add: new_ExprLexer_def checkAddTag_def NL_def isspace_def)
  show "handle_condition \<lparr>inp = ''a || b'', outp = out, cerr = [], ctxt = ctx\<rparr> =
     (''a'' \<in> Tags ctx \<or> ''b'' \<in> Tags ctx, \<lparr>inp = [], outp = out, cerr = [], ctxt = ctx\<rparr>)"
    by (simp add: handle_condition_def l current_def accept_def accept_type_def tokenStr_def
        binary_condition.simps unary_condition.simps primary_condition.simps)
qed

section \<open>Errors\<close>

lemma handle_if_returns_true:
  "handle_if n ignore st = Some (ok, st') \<Longrightarrow> ok"
  by (cases n) (auto split: prod.splits option.splits)

lemma handle_define_failure:
  "handle_define st = (False, st') \<Longrightarrow> missing_tag_reported st'"
  by (auto simp: handle_define_def missing_tag_reported_def split: prod.splits if_splits)

lemma handle_undef_failure:
  "handle_undef st = (False, st') \<Longrightarrow> missing_tag_reported st'"
  by (auto simp: handle_undef_def missing_tag_reported_def split: prod.splits if_splits)

lemma consume_failure:
  "consume n ignore st = Some (False, st') \<Longrightarrow> missing_tag_reported st'"
proof (induction n arbitrary: st)
  case 0
  then show ?case by simp
next
  case (Suc n)
  show ?case
  proof (cases "inp st")
    case Nil
    with Suc.prems show ?thesis by simp
  next
    case (Cons c s)
    show ?thesis
    proof (cases "c = PP_START")
      case False
      with Suc.prems Cons show ?thesis by (auto intro: Suc.IH)
    next
      case True
      obtain op name s' where e: "extract_operation s = (op, name, s')"
        by (cases "extract_operation s") auto
      consider (i) "op = Op_If" | (d) "op = Op_Define" | (u) "op = Op_Undef"
        | (o) "op \<noteq> Op_If" "op \<noteq> Op_Define" "op \<noteq> Op_Undef" by blast
      then show ?thesis
      proof cases
        case i
        with Suc.prems Cons True e show ?thesis
          by (auto split: option.splits if_splits dest: handle_if_returns_true intro: Suc.IH)
      next
        case d
        with Suc.prems Cons True e show ?thesis
          by (auto split: prod.splits if_splits intro: Suc.IH handle_define_failure)
      next
        case u
        with Suc.prems Cons True e show ?thesis
          by (auto split: prod.splits if_splits intro: Suc.IH handle_undef_failure)
      next
        case o
        with Suc.prems Cons True e show ?thesis by (auto intro: Suc.IH)
      qed
    qed
  qed
qed

text \<open>
  Claim C1, as amended.  An error in a guard is reported but is not fatal.  The run
  returns a failure only right after the report of a missing tag of \<open>define\<close> or
  \<open>undef\<close>, never after an error in a guard.  An \<open>if\<close> with an empty condition in an
  active context is reported and then handled as an \<open>if\<close> with a false guard: its block
  is scanned, and \<open>handle_if\<close> returns \<open>true\<close>.
\<close>

theorem guard_error_not_fatal:
  "(parse n tags input = Some (False, st') \<longrightarrow>
      cerr st' \<noteq> [] \<and> (last (cerr st') = DefineWithoutTag \<or> last (cerr st') = UndefWithoutTag)) \<and>
   (fst (lex_loop [] [] (cerr st) (inp st)) = [] \<longrightarrow>
      (\<exists>err' s'. (err', s') = snd (lex_loop [] [] (cerr st) (inp st)) \<and>
         handle_if (Suc m) False st =
           (case handle_if_loop m False False False Op_If
                   (enter_block (st\<lparr>inp := s', cerr := err' @ [ExpectedCondition]\<rparr>)) of
              None \<Rightarrow> None
            | Some st2 \<Rightarrow> Some (True, leave_block st2))))"
proof -
  have 1: "cerr st' \<noteq> [] \<and> (last (cerr st') = DefineWithoutTag \<or> last (cerr st') = UndefWithoutTag)"
    if "parse n tags input = Some (False, st')"
    using that consume_failure[of n False "initial_state tags input" st']
    by (simp add: parse_def missing_tag_reported_def)
  have 2: "\<exists>err' s'. (err', s') = snd (lex_loop [] [] (cerr st) (inp st)) \<and>
         handle_if (Suc m) False st =
           (case handle_if_loop m False False False Op_If
                   (enter_block (st\<lparr>inp := s', cerr := err' @ [ExpectedCondition]\<rparr>)) of
              None \<Rightarrow> None
            | Some st2 \<Rightarrow> Some (True, leave_block st2))"
    if a: "fst (lex_loop [] [] (cerr st) (inp st)) = []"
  proof -
    obtain toks err' s' where l: "lex_loop [] [] (cerr st) (inp st) = (toks, err', s')"
      by (cases "lex_loop [] [] (cerr st) (inp st)") auto
    with a have "handle_condition st = (False, st\<lparr>inp := s', cerr := err' @ [ExpectedCondition]\<rparr>)"
      by (simp add: handle_condition_def new_ExprLexer_def current_def)
    with l show ?thesis by (simp add: handle_if_condition_def)
  qed
  from 1 2 show ?thesis by blast
qed

theorem guard_error_not_fatal_witness:
  "parse 3 {} ''#define'' =
     Some (False, \<lparr>inp = [], outp = [], cerr = [DefineWithoutTag], ctxt = \<lparr>Tags = {}, Depth = 0\<rparr>\<rparr>) \<and>
   last (cerr \<lparr>inp = [], outp = [], cerr = [DefineWithoutTag], ctxt = \<lparr>Tags = {}, Depth = 0\<rparr>\<rparr>) =
     DefineWithoutTag \<and>
   fst (lex_loop [] [] [] '' \<newline>A#endif\<newline>B'') = [] \<and>
   handle_if (Suc 4) False (initial_state {} '' \<newline>A#endif\<newline>B'') =
     Some (True, \<lparr>inp = ''B'', outp = [], cerr = [ExpectedCondition], ctxt = \<lparr>Tags = {}, Depth = 0\<rparr>\<rparr>)"
proof -
  let ?S = "\<lparr>inp = [], outp = [], cerr = [DefineWithoutTag], ctxt = \<lparr>Tags = {}, Depth = 0\<rparr>\<rparr>"
  let ?st = "initial_state {} '' \<newline>A#endif\<newline>B''"
  have p: "parse 3 {} ''#define'' = Some (False, ?S)" by code_simp
  have l: "fst (lex_loop [] [] (cerr ?st) (inp ?st)) = []" by code_simp
  have s: "snd (lex_loop [] [] (cerr ?st) (inp ?st)) = ([], ''A#endif\<newline>B'')" by code_simp
  have h: "handle_if_loop 4 False False False Op_If
      (enter_block (?st\<lparr>inp := ''A#endif\<newline>B'', cerr := [] @ [ExpectedCondition]\<rparr>)) =
      Some \<lparr>inp = ''B'', outp = [], cerr = [ExpectedCondition], ctxt = \<lparr>Tags = {}, Depth = 1\<rparr>\<rparr>"
    by code_simp
  note t = guard_error_not_fatal[of 3 "{}" "''#define''" ?S ?st 4]
  from t p have 1: "last (cerr ?S) = DefineWithoutTag" by simp
  from t l s h have 2: "handle_if (Suc 4) False ?st =
      Some (True, \<lparr>inp = ''B'', outp = [], cerr = [ExpectedCondition], ctxt = \<lparr>Tags = {}, Depth = 0\<rparr>\<rparr>)"
    by (auto simp: leave_block_def)
  from l have 3: "fst (lex_loop [] [] [] '' \<newline>A#endif\<newline>B'') = []"
    by (simp add: initial_state_def)
  show ?thesis by (intro conjI) (fact p 1 3 2)+
qed

text \<open>
  Claim C1 as stated fails: after an empty condition, an unmatched parenthesis or an
  unexpected token the run goes on, writes the text that follows and succeeds.
\<close>

theorem guard_error_counterexample:
  "parse 30 {} ''#if \<newline>A#else\<newline>B#endif\<newline>C'' =
     Some (True, \<lparr>inp = [], outp = ''BC'', cerr = [ExpectedCondition],
                  ctxt = \<lparr>Tags = {}, Depth = 0\<rparr>\<rparr>) \<and>
   parse 30 {''a''} ''#if (a\<newline>A#endif\<newline>C'' =
     Some (True, \<lparr>inp = [], outp = ''C'', cerr = [Expected_but_got '')'' ''EOS''],
                  ctxt = \<lparr>Tags = {''a''}, Depth = 0\<rparr>\<rparr>) \<and>
   parse 30 {''a''} ''#if a b\<newline>A#endif\<newline>C'' =
     Some (True, \<lparr>inp = [], outp = ''C'', cerr = [],
                  ctxt = \<lparr>Tags = {''a''}, Depth = 0\<rparr>\<rparr>)"
  by code_simp

text \<open>
  Claim C5 fails on the code inside a block.  The \<open>define\<close> without a tag in the active
  body of an \<open>if\<close> is reported, but \<open>handle_if\<close> returns \<open>true\<close> all the same: the run goes
  on, writes \<open>#endif\<close> and \<open>X\<close>, and succeeds.
\<close>

theorem missing_tag_inside_block_not_fatal:
  "parse 30 {''a''} ''#if a\<newline>#define \<newline>#endif\<newline>X'' =
     Some (True, \<lparr>inp = [], outp = ''#endifX'', cerr = [DefineWithoutTag],
                  ctxt = \<lparr>Tags = {''a''}, Depth = 0\<rparr>\<rparr>)"
  by code_simp

section \<open>A block that is not closed\<close>

lemma handle_condition_eof:
  "inp st = [] \<Longrightarrow> inp (snd (handle_condition st)) = []"
  by (simp add: handle_condition_def new_ExprLexer_def split: prod.splits)

lemma handle_if_loop_eof:
  "inp st = [] \<Longrightarrow> cur \<noteq> Op_Endif \<Longrightarrow>
     handle_if_loop n ignore condition once_true cur st = None"
proof (induction n arbitrary: condition once_true st)
  case 0
  then show ?case by simp
next
  case (Suc n)
  show ?case
  proof (cases n)
    case 0
    then show ?thesis by simp
  next
    case (Suc k)
    have c: "consume_next n (ignore \<or> once_true \<or> \<not> condition) cur st = Some (True, cur, st)"
      using Suc Suc.prems by simp
    obtain b st2 where h: "handle_condition st = (b, st2)" by (cases "handle_condition st") auto
    then have "inp st2 = []" using handle_condition_eof[OF Suc.prems(1)] by simp
    then show ?thesis
      using c h Suc.prems Suc.IH by (auto simp: Let_def)
  qed
qed

text \<open>
  Claim C9 fails on the code.  On the input \<open>#if a\<close> followed by a newline the run does
  not return, whatever the tags are: no amount of fuel gives a result.  At the end of
  the stream \<open>consume_next\<close> returns \<open>true\<close> and leaves \<open>current\<close> as it was, so the loop
  of \<open>handle_if\<close> goes round for ever.
\<close>

theorem unclosed_if_never_returns:
  "parse n tags ''#if a\<newline>'' = None"
proof -
  have e: "extract_operation ''if a\<newline>'' = (Op_If, ''if'', ''a\<newline>'')"
    by code_simp
  have "handle_if m False (initial_state tags ''a\<newline>'') = None" for m
  proof (cases m)
    case 0
    then show ?thesis by simp
  next
    case (Suc k)
    obtain b st1 where h: "handle_condition (initial_state tags ''a\<newline>'') = (b, st1)"
      by (cases "handle_condition (initial_state tags ''a\<newline>'')") auto
    have "inp (snd (handle_condition (initial_state tags ''a\<newline>''))) = []"
      by (simp add: handle_condition_def new_ExprLexer_def initial_state_def NL_def isspace_def
          split: prod.splits)
    with h have "inp (enter_block st1) = []" by (simp add: enter_block_def)
    from handle_if_loop_eof[OF this, of Op_If k False b False] h Suc show ?thesis
      by (simp add: handle_if_condition_def)
  qed
  then show ?thesis
    using e by (cases n) (simp_all add: parse_def PP_START_def initial_state_def)
qed

section \<open>Chains of branches\<close>

subsection \<open>More fuel gives the same result\<close>

lemma fuel_Suc:
  "(\<forall>ignore st r. consume n ignore st = Some r \<longrightarrow> consume (Suc n) ignore st = Some r) \<and>
   (\<forall>ignore next st r. consume_next n ignore next st = Some r \<longrightarrow>
       consume_next (Suc n) ignore next st = Some r) \<and>
   (\<forall>ignore st r. handle_if n ignore st = Some r \<longrightarrow> handle_if (Suc n) ignore st = Some r) \<and>
   (\<forall>ignore condition once_true cur st r.
       handle_if_loop n ignore condition once_true cur st = Some r \<longrightarrow>
       handle_if_loop (Suc n) ignore condition once_true cur st = Some r)"
proof (induction n)
  case 0
  then show ?case by simp
next
  case (Suc n)
  then have c: "\<And>ignore st r. consume n ignore st = Some r \<Longrightarrow> consume (Suc n) ignore st = Some r"
    and cn: "\<And>ignore next st r. consume_next n ignore next st = Some r \<Longrightarrow>
       consume_next (Suc n) ignore next st = Some r"
    and hi: "\<And>ignore st r. handle_if n ignore st = Some r \<Longrightarrow> handle_if (Suc n) ignore st = Some r"
    and hl: "\<And>ignore condition once_true cur st r.
       handle_if_loop n ignore condition once_true cur st = Some r \<Longrightarrow>
       handle_if_loop (Suc n) ignore condition once_true cur st = Some r"
    by blast+
  have 1: "consume (Suc (Suc n)) ignore st = Some r" if a: "consume (Suc n) ignore st = Some r"
    for ignore st r
  proof (cases "inp st")
    case Nil
    with a show ?thesis by simp
  next
    case (Cons ch s)
    show ?thesis
    proof (cases "ch = PP_START")
      case False
      with a Cons have "consume n ignore (put_char ignore ch (st\<lparr>inp := s\<rparr>)) = Some r" by simp
      from c[OF this] False Cons show ?thesis by (subst consume.simps) simp
    next
      case True
      obtain op name s' where e: "extract_operation s = (op, name, s')"
        by (cases "extract_operation s") auto
      consider (i) "op = Op_If" | (d) "op = Op_Define" | (u) "op = Op_Undef"
        | (o) "op \<noteq> Op_If" "op \<noteq> Op_Define" "op \<noteq> Op_Undef" by blast
      then show ?thesis
      proof cases
        case i
        from a Cons True e i obtain ok st' where h: "handle_if n ignore (st\<lparr>inp := s'\<rparr>) = Some (ok, st')"
          and k: "(if \<not> ok then Some (False, st') else consume n ignore st') = Some r"
          by (auto split: option.splits)
        from k have "(if \<not> ok then Some (False, st') else consume (Suc n) ignore st') = Some r"
          by (auto split: if_splits dest: c simp del: consume.simps)
        with hi[OF h] Cons True e i show ?thesis
          by (subst consume.simps) (simp del: consume.simps handle_if.simps)
      next
        case d
        obtain ok st' where h: "handle_define (st\<lparr>inp := s'\<rparr>) = (ok, st')"
          by (cases "handle_define (st\<lparr>inp := s'\<rparr>)") auto
        from a Cons True e d h
        have "(if ignore then consume n ignore (st\<lparr>inp := s'\<rparr>)
               else if \<not> ok then Some (False, st') else consume n ignore st') = Some r"
          by (auto split: if_splits)
        then have "(if ignore then consume (Suc n) ignore (st\<lparr>inp := s'\<rparr>)
               else if \<not> ok then Some (False, st') else consume (Suc n) ignore st') = Some r"
          by (auto split: if_splits dest: c simp del: consume.simps)
        with Cons True e d h show ?thesis
          by (subst consume.simps) (auto simp del: consume.simps split: if_splits)
      next
        case u
        obtain ok st' where h: "handle_undef (st\<lparr>inp := s'\<rparr>) = (ok, st')"
          by (cases "handle_undef (st\<lparr>inp := s'\<rparr>)") auto
        from a Cons True e u h
        have "(if ignore then consume n ignore (st\<lparr>inp := s'\<rparr>)
               else if \<not> ok then Some (False, st') else consume n ignore st') = Some r"
          by (auto split: if_splits)
        then have "(if ignore then consume (Suc n) ignore (st\<lparr>inp := s'\<rparr>)
               else if \<not> ok then Some (False, st') else consume (Suc n) ignore st') = Some r"
          by (auto split: if_splits dest: c simp del: consume.simps)
        with Cons True e u h show ?thesis
          by (subst consume.simps) (auto simp del: consume.simps split: if_splits)
      next
        case o
        with a Cons True e
        have "consume n ignore (echo_directive ignore name (st\<lparr>inp := s'\<rparr>)) = Some r" by simp
        from c[OF this] o Cons True e show ?thesis by (subst consume.simps) simp
      qed
    qed
  qed
  have 2: "consume_next (Suc (Suc n)) ignore nxt st = Some r"
    if a: "consume_next (Suc n) ignore nxt st = Some r" for ignore nxt st r
  proof (cases "inp st")
    case Nil
    with a show ?thesis by simp
  next
    case (Cons ch s)
    show ?thesis
    proof (cases "ch = PP_START")
      case False
      with a Cons have "consume_next n ignore nxt (put_char ignore ch (st\<lparr>inp := s\<rparr>)) = Some r"
        by simp
      from cn[OF this] False Cons show ?thesis by (subst consume_next.simps) simp
    next
      case True
      obtain op name s' where e: "extract_operation s = (op, name, s')"
        by (cases "extract_operation s") auto
      consider (i) "op = Op_If" | (b) "op = Op_Elif \<or> op = Op_Else \<or> op = Op_Endif"
        | (d) "op = Op_Define" | (u) "op = Op_Undef"
        | (o) "op = Op_Unknown" by (cases op) auto
      then show ?thesis
      proof cases
        case i
        from a Cons True e i obtain ok st' where h: "handle_if n ignore (st\<lparr>inp := s'\<rparr>) = Some (ok, st')"
          and k: "(if \<not> ok then Some (False, nxt, st') else consume_next n ignore nxt st') = Some r"
          by (auto split: option.splits)
        from k have "(if \<not> ok then Some (False, nxt, st') else consume_next (Suc n) ignore nxt st') = Some r"
          by (auto split: if_splits dest: cn simp del: consume_next.simps)
        with hi[OF h] Cons True e i show ?thesis
          by (subst consume_next.simps) (simp del: consume_next.simps handle_if.simps)
      next
        case b
        with a Cons True e show ?thesis by auto
      next
        case d
        obtain ok st' where h: "handle_define (st\<lparr>inp := s'\<rparr>) = (ok, st')"
          by (cases "handle_define (st\<lparr>inp := s'\<rparr>)") auto
        from a Cons True e d h
        have "(if ignore then consume_next n ignore nxt (st\<lparr>inp := s'\<rparr>)
               else if \<not> ok then Some (False, nxt, st') else consume_next n ignore nxt st') = Some r"
          by (auto split: if_splits)
        then have "(if ignore then consume_next (Suc n) ignore nxt (st\<lparr>inp := s'\<rparr>)
               else if \<not> ok then Some (False, nxt, st') else consume_next (Suc n) ignore nxt st') = Some r"
          by (auto split: if_splits dest: cn simp del: consume_next.simps)
        with Cons True e d h show ?thesis
          by (subst consume_next.simps) (auto simp del: consume_next.simps split: if_splits)
      next
        case u
        obtain ok st' where h: "handle_undef (st\<lparr>inp := s'\<rparr>) = (ok, st')"
          by (cases "handle_undef (st\<lparr>inp := s'\<rparr>)") auto
        from a Cons True e u h
        have "(if ignore then consume_next n ignore nxt (st\<lparr>inp := s'\<rparr>)
               else if \<not> ok then Some (False, nxt, st') else consume_next n ignore nxt st') = Some r"
          by (auto split: if_splits)
        then have "(if ignore then consume_next (Suc n) ignore nxt (st\<lparr>inp := s'\<rparr>)
               else if \<not> ok then Some (False, nxt, st') else consume_next (Suc n) ignore nxt st') = Some r"
          by (auto split: if_splits dest: cn simp del: consume_next.simps)
        with Cons True e u h show ?thesis
          by (subst consume_next.simps) (auto simp del: consume_next.simps split: if_splits)
      next
        case o
        with a Cons True e
        have "consume_next n ignore nxt (echo_directive ignore name (st\<lparr>inp := s'\<rparr>)) = Some r"
          by simp
        from cn[OF this] o Cons True e show ?thesis by (subst consume_next.simps) simp
      qed
    qed
  qed
  have 3: "handle_if (Suc (Suc n)) ignore st = Some r" if a: "handle_if (Suc n) ignore st = Some r"
    for ignore st r
  proof -
    obtain condition st1 where g: "handle_if_condition ignore st = (condition, st1)"
      by (cases "handle_if_condition ignore st") auto
    with a obtain st2 where l: "handle_if_loop n ignore condition False Op_If (enter_block st1) = Some st2"
      and r: "r = (True, leave_block st2)"
      by (auto split: option.splits)
    from hl[OF l] g r show ?thesis
      by (subst handle_if.simps) (simp del: handle_if_loop.simps)
  qed
  have 4: "handle_if_loop (Suc (Suc n)) ignore condition once_true cur st = Some r"
    if a: "handle_if_loop (Suc n) ignore condition once_true cur st = Some r"
    for ignore condition once_true cur st r
  proof -
    from a obtain ok cur' st' where
      s: "consume_next n (ignore \<or> once_true \<or> \<not> condition) cur st = Some (ok, cur', st')"
      by (auto split: option.splits)
    note s' = cn[OF s]
    show ?thesis
    proof (cases "\<not> ok \<or> cur' = Op_Endif")
      case True
      with a s have "r = st'" by (auto split: if_splits)
      with True s' show ?thesis
        by (subst handle_if_loop.simps) (auto simp del: handle_if_loop.simps consume_next.simps)
    next
      case False
      obtain condition' st'' where hc: "handle_condition st' = (condition', st'')"
        by (cases "handle_condition st'") auto
      from a s False hc
      have "(if condition \<or> once_true then handle_if_loop n ignore False True cur' st'
             else if cur' = Op_Elif then handle_if_loop n ignore condition' False cur' st''
             else handle_if_loop n ignore True False cur' st') = Some r"
        by (auto simp: Let_def split: if_splits)
      then have "(if condition \<or> once_true then handle_if_loop (Suc n) ignore False True cur' st'
             else if cur' = Op_Elif then handle_if_loop (Suc n) ignore condition' False cur' st''
             else handle_if_loop (Suc n) ignore True False cur' st') = Some r"
        by (auto split: if_splits dest: hl simp del: handle_if_loop.simps)
      with s' False hc show ?thesis
        by (subst handle_if_loop.simps)
          (auto simp: Let_def simp del: handle_if_loop.simps consume_next.simps)
    qed
  qed
  from 1 2 3 4 show ?case by blast
qed

lemma consume_next_fuel_mono:
  "consume_next n ignore next st = Some r \<Longrightarrow> n \<le> m \<Longrightarrow> consume_next m ignore next st = Some r"
  by (induction m) (auto simp: le_Suc_eq fuel_Suc simp del: consume_next.simps)

lemma handle_if_fuel_mono:
  "handle_if n ignore st = Some r \<Longrightarrow> n \<le> m \<Longrightarrow> handle_if m ignore st = Some r"
  by (induction m) (auto simp: le_Suc_eq fuel_Suc simp del: handle_if.simps)

lemma handle_if_loop_fuel_mono:
  "handle_if_loop n ignore condition once_true cur st = Some r \<Longrightarrow> n \<le> m \<Longrightarrow>
     handle_if_loop m ignore condition once_true cur st = Some r"
  by (induction m) (auto simp: le_Suc_eq fuel_Suc simp del: handle_if_loop.simps)

subsection \<open>Directives and guards of a well-formed document\<close>

lemma extract_operation_keywords:
  "extract_operation (''if '' @ s) = (Op_If, ''if'', s)"
  "extract_operation (''elif '' @ s) = (Op_Elif, ''elif'', s)"
  "extract_operation (''else'' @ NL # s) = (Op_Else, ''else'', s)"
  "extract_operation (''endif'' @ NL # s) = (Op_Endif, ''endif'', s)"
  "extract_operation (''define '' @ s) = (Op_Define, ''define'', s)"
  "extract_operation (''undef '' @ s) = (Op_Undef, ''undef'', s)"
  by (simp_all add: extract_operation_def MAX_BUF_SIZE_def isspace_def NL_def c_str_def NUL_def)

lemma get_tag_loop_word:
  "list_all (\<lambda>c. \<not> isspace c) t \<Longrightarrow> get_tag_loop buffer started (t @ NL # s) = (buffer @ t, s)"
proof (induction t arbitrary: buffer started)
  case Nil
  then show ?case by simp
next
  case (Cons c t)
  then have "c \<noteq> NL" by (auto simp: isspace_def NL_def)
  with Cons show ?case by simp
qed

lemma get_tag_wf:
  "wf_tag t \<Longrightarrow> get_tag (t @ NL # s) = (t, s)"
  using get_tag_loop_word[of t "[]" False s]
  by (simp add: get_tag_def wf_tag_def list_all_iff)

lemma handle_define_wf:
  "wf_tag t \<Longrightarrow>
     handle_define \<lparr>inp = t @ NL # s, outp = out, cerr = e, ctxt = \<lparr>Tags = T, Depth = d\<rparr>\<rparr> =
       (True, \<lparr>inp = s, outp = out, cerr = e, ctxt = \<lparr>Tags = insert t T, Depth = d\<rparr>\<rparr>)"
  by (simp add: handle_define_def get_tag_wf) (simp add: wf_tag_def)

lemma handle_undef_wf:
  "wf_tag t \<Longrightarrow>
     handle_undef \<lparr>inp = t @ NL # s, outp = out, cerr = e, ctxt = \<lparr>Tags = T, Depth = d\<rparr>\<rparr> =
       (True, \<lparr>inp = s, outp = out, cerr = e, ctxt = \<lparr>Tags = T - {t}, Depth = d\<rparr>\<rparr>)"
  by (simp add: handle_undef_def get_tag_wf) (simp add: wf_tag_def)

text \<open>The lexer reads one line: what follows the newline does not matter.\<close>

lemma lex_loop_line:
  "NL \<notin> set g \<Longrightarrow>
     lex_loop tag toks err (g @ NL # s) =
       (fst (lex_loop tag toks err (g @ [NL])), fst (snd (lex_loop tag toks err (g @ [NL]))), s)"
proof (induction g arbitrary: tag toks err rule: length_induct)
  case (1 g)
  show ?case
  proof (cases g)
    case Nil
    then show ?thesis by simp
  next
    case (Cons c g')
    with 1 have c: "c \<noteq> NL" and g': "NL \<notin> set g'" by auto
    have ih: "lex_loop tag' toks' err' (g' @ NL # s) =
       (fst (lex_loop tag' toks' err' (g' @ [NL])), fst (snd (lex_loop tag' toks' err' (g' @ [NL]))), s)"
      for tag' toks' err'
      using 1 Cons g' by simp
    show ?thesis
    proof (cases g')
      case Nil
      with Cons c ih show ?thesis by (simp add: NL_def)
    next
      case g'': (Cons d g'')
      with g' have "NL \<notin> set g''" by simp
      then have ih2: "lex_loop tag' toks' err' (g'' @ NL # s) =
         (fst (lex_loop tag' toks' err' (g'' @ [NL])), fst (snd (lex_loop tag' toks' err' (g'' @ [NL]))), s)"
        for tag' toks' err'
        using 1 Cons g'' by simp
      from ih have ih': "lex_loop tag' toks' err' (d # g'' @ NL # s) =
         (fst (lex_loop tag' toks' err' (d # g'' @ [NL])), fst (snd (lex_loop tag' toks' err' (d # g'' @ [NL]))), s)"
        for tag' toks' err'
        using g'' by simp
      show ?thesis
        unfolding Cons g''
        by (simp add: c ih2 ih' del: lex_loop.simps add: lex_loop.simps(2)[of _ _ _ c])
    qed
  qed
qed

lemma lex_loop_err_independent:
  "fst (lex_loop tag toks e s) = fst (lex_loop tag toks e' s) \<and>
   snd (snd (lex_loop tag toks e s)) = snd (snd (lex_loop tag toks e' s))"
proof (induction s arbitrary: tag toks e e' rule: length_induct)
  case (1 s)
  show ?case
  proof (cases s)
    case Nil
    then show ?thesis by simp
  next
    case (Cons c s')
    have ih: "fst (lex_loop tag' toks' a s') = fst (lex_loop tag' toks' b s') \<and>
       snd (snd (lex_loop tag' toks' a s')) = snd (snd (lex_loop tag' toks' b s'))"
      for tag' toks' a b
      using 1 Cons by simp
    show ?thesis
    proof (cases s')
      case Nil
      with Cons ih show ?thesis by simp
    next
      case s'': (Cons d s'')
      have ih2: "fst (lex_loop tag' toks' a s'') = fst (lex_loop tag' toks' b s'') \<and>
         snd (snd (lex_loop tag' toks' a s'')) = snd (snd (lex_loop tag' toks' b s''))"
        for tag' toks' a b
        using 1 Cons s'' by simp
      from ih have ih': "fst (lex_loop tag' toks' a (d # s'')) = fst (lex_loop tag' toks' b (d # s'')) \<and>
         snd (snd (lex_loop tag' toks' a (d # s''))) = snd (snd (lex_loop tag' toks' b (d # s'')))"
        for tag' toks' a b
        using s'' by simp
      show ?thesis
        unfolding Cons s''
        using ih2 ih'
        by (simp del: lex_loop.simps add: lex_loop.simps(2)[of _ _ _ c])
    qed
  qed
qed

lemma condition_err_independent:
  "\<forall>ctx' err'. Tags ctx' = Tags ctx \<longrightarrow>
     fst (primary_condition ctx' lx err') = fst (primary_condition ctx lx err) \<and>
     fst (snd (primary_condition ctx' lx err')) = fst (snd (primary_condition ctx lx err))"
  "\<forall>ctx' err'. Tags ctx' = Tags ctx \<longrightarrow>
     fst (unary_condition ctx' lx err') = fst (unary_condition ctx lx err) \<and>
     fst (snd (unary_condition ctx' lx err')) = fst (snd (unary_condition ctx lx err))"
  "\<forall>ctx' err'. Tags ctx' = Tags ctx \<longrightarrow>
     fst (binary_condition ctx' lx err') = fst (binary_condition ctx lx err) \<and>
     fst (snd (binary_condition ctx' lx err')) = fst (snd (binary_condition ctx lx err))"
proof (induction ctx lx err and ctx lx err and ctx lx err
    rule: primary_condition_unary_condition_binary_condition.induct)
  case (1 ctx lx err)
  show ?case
  proof (intro allI impI)
    fix ctx' :: Context and err' :: "Diagnostic list"
    assume t: "Tags ctx' = Tags ctx"
    show "fst (primary_condition ctx' lx err') = fst (primary_condition ctx lx err) \<and>
     fst (snd (primary_condition ctx' lx err')) = fst (snd (primary_condition ctx lx err))"
    proof (cases "Type (current lx) = Tk_ParantheseOpen")
      case True
      obtain a lx1 e1 where b: "binary_condition ctx (accept lx) err = (a, lx1, e1)"
        by (cases "binary_condition ctx (accept lx) err") auto
      obtain a' lx1' e1' where b': "binary_condition ctx' (accept lx) err' = (a', lx1', e1')"
        by (cases "binary_condition ctx' (accept lx) err'") auto
      from 1[OF True, rule_format, of ctx' err'] t b b' have "a' = a" "lx1' = lx1" by auto
      with True b b' show ?thesis
        by (simp add: primary_condition.simps[of ctx' lx err'] primary_condition.simps[of ctx lx err]
            accept_type_def Let_def)
    next
      case False
      with t show ?thesis
        by (simp add: primary_condition.simps[of ctx' lx err'] primary_condition.simps[of ctx lx err]
            accept_type_def Let_def split: prod.splits)
    qed
  qed
next
  case (2 ctx lx err)
  show ?case
  proof (intro allI impI)
    fix ctx' :: Context and err' :: "Diagnostic list"
    assume t: "Tags ctx' = Tags ctx"
    show "fst (unary_condition ctx' lx err') = fst (unary_condition ctx lx err) \<and>
     fst (snd (unary_condition ctx' lx err')) = fst (snd (unary_condition ctx lx err))"
    proof (cases "Type (current lx) = Tk_Not")
      case True
      obtain a lx1 e1 where b: "unary_condition ctx (accept lx) err = (a, lx1, e1)"
        by (cases "unary_condition ctx (accept lx) err") auto
      obtain a' lx1' e1' where b': "unary_condition ctx' (accept lx) err' = (a', lx1', e1')"
        by (cases "unary_condition ctx' (accept lx) err'") auto
      from 2(1)[OF True, rule_format, of ctx' err'] t b b' have "a' = a" "lx1' = lx1" by auto
      with True b b' show ?thesis
        by (simp add: unary_condition.simps[of ctx' lx err'] unary_condition.simps[of ctx lx err])
    next
      case False
      from 2(2)[OF False, rule_format, of ctx' err'] t False show ?thesis
        by (simp add: unary_condition.simps[of ctx' lx err'] unary_condition.simps[of ctx lx err])
    qed
  qed
next
  case (3 ctx lx err)
  show ?case
  proof (intro allI impI)
    fix ctx' :: Context and err' :: "Diagnostic list"
    assume t: "Tags ctx' = Tags ctx"
    obtain a lx1 err1 where u: "unary_condition ctx lx err = (a, lx1, err1)"
      by (cases "unary_condition ctx lx err") auto
    obtain a' lx1' err1' where u': "unary_condition ctx' lx err' = (a', lx1', err1')"
      by (cases "unary_condition ctx' lx err'") auto
    from 3(1)[rule_format, of ctx' err'] t u u' have eq: "a' = a" "lx1' = lx1" by auto
    have r: "fst (binary_condition ctx' (accept lx1) err1') = fst (binary_condition ctx (accept lx1) err1) \<and>
         fst (snd (binary_condition ctx' (accept lx1) err1')) = fst (snd (binary_condition ctx (accept lx1) err1))"
      if "is_binary_operator (Type (current lx1))"
      using that 3(2)[of a "(lx1, err1)" lx1 err1, rule_format, of ctx' err1']
        3(3)[of a "(lx1, err1)" lx1 err1, rule_format, of ctx' err1']
        3(4)[of a "(lx1, err1)" lx1 err1, rule_format, of ctx' err1'] u t
      by (auto simp: is_binary_operator_def)
    show "fst (binary_condition ctx' lx err') = fst (binary_condition ctx lx err) \<and>
     fst (snd (binary_condition ctx' lx err')) = fst (snd (binary_condition ctx lx err))"
      using u u' eq r
      by (auto simp: binary_condition.simps[of ctx' lx err'] binary_condition.simps[of ctx lx err]
          is_binary_operator_def split: prod.splits)
  qed
qed

lemma handle_condition_guard:
  assumes "wf_guard g"
  shows "\<exists>e'. handle_condition \<lparr>inp = g @ NL # s, outp = out, cerr = e, ctxt = \<lparr>Tags = T, Depth = d\<rparr>\<rparr> =
     (guard_value T g, \<lparr>inp = s, outp = out, cerr = e', ctxt = \<lparr>Tags = T, Depth = d\<rparr>\<rparr>)"
proof -
  from assms have nl: "NL \<notin> set g" by (simp add: wf_guard_def)
  obtain toks e1 r where l: "lex_loop [] [] e (g @ [NL]) = (toks, e1, r)"
    by (cases "lex_loop [] [] e (g @ [NL])") auto
  obtain toks0 e0 r0 where l0: "lex_loop [] [] [] (g @ [NL]) = (toks0, e0, r0)"
    by (cases "lex_loop [] [] [] (g @ [NL])") auto
  from lex_loop_err_independent[of "[]" "[]" e "g @ [NL]" "[]"] l l0 have toks: "toks0 = toks" by simp
  from lex_loop_line[OF nl, of "[]" "[]" e s] l
  have ls: "lex_loop [] [] e (g @ NL # s) = (toks, e1, s)" by simp
  let ?lx = "\<lparr>mTokens = toks, mPosition = 0\<rparr>"
  show ?thesis
  proof (cases "Type (current ?lx) = Tk_EOS")
    case True
    with ls l0 toks show ?thesis
      by (simp add: handle_condition_def new_ExprLexer_def guard_value_def)
  next
    case False
    obtain b lx' e2 where bc: "binary_condition \<lparr>Tags = T, Depth = d\<rparr> ?lx e1 = (b, lx', e2)"
      by (cases "binary_condition \<lparr>Tags = T, Depth = d\<rparr> ?lx e1") auto
    from condition_err_independent(3)[of "\<lparr>Tags = T, Depth = d\<rparr>" ?lx e1, rule_format, of "\<lparr>Tags = T, Depth = 0\<rparr>" e0] bc
    have "fst (binary_condition \<lparr>Tags = T, Depth = 0\<rparr> ?lx e0) = b" by simp
    with False ls l0 toks bc show ?thesis
      by (auto simp: handle_condition_def new_ExprLexer_def guard_value_def split: prod.splits)
  qed
qed

subsection \<open>Bodies\<close>

lemma body_scannedD:
  "body_scanned b \<Longrightarrow>
     \<exists>e'. \<forall>n r.
        consume_next n ign cur
          (St k (snd (if ign then (T, out) else sem_body b (T, out))) e'
             (fst (if ign then (T, out) else sem_body b (T, out))) d) = Some r \<longrightarrow>
        (\<exists>m. consume_next m ign cur (St (render_body b @ k) out e T d) = Some r)"
  unfolding body_scanned_def by blast

lemma chain_loopedD:
  "chain_looped b ch \<Longrightarrow> \<not> (once \<and> cond) \<Longrightarrow>
     \<exists>e' m. handle_if_loop m ign cond once cur
                   (St (render_body b @ render_chain ch @ k) out e T d) =
           Some (St k
             (snd (if ign then (T, out) else if cond then sem_body b (T, out)
                   else if once then (T, out) else sem_chain ch (T, out))) e'
             (fst (if ign then (T, out) else if cond then sem_body b (T, out)
                   else if once then (T, out) else sem_chain ch (T, out))) d)"
  unfolding chain_looped_def by blast

lemma block_handledD:
  "block_handled g b ch \<Longrightarrow>
     \<exists>e' m. handle_if m ign (St (g @ NL # render_body b @ render_chain ch @ k) out e T d) =
           Some (True, St k
             (snd (if ign then (T, out) else if guard_value T g then sem_body b (T, out)
                   else sem_chain ch (T, out))) e'
             (fst (if ign then (T, out) else if guard_value T g then sem_body b (T, out)
                   else sem_chain ch (T, out))) d)"
  unfolding block_handled_def by blast

lemma consume_next_plain:
  "PP_START \<notin> set t \<Longrightarrow>
     consume_next (length t + n) ign cur (St (t @ k) out e T d) =
     consume_next n ign cur (St k (if ign then out else out @ t) e T d)"
  by (induction t arbitrary: out) (auto simp: put_char_def)

lemma scanned_End: "body_scanned End"
  unfolding body_scanned_def by (auto split: if_splits)

lemma scanned_Text:
  assumes "wf_text t" "body_scanned b"
  shows "body_scanned (TextItem t b)"
  unfolding body_scanned_def
proof (intro allI)
  fix ign cur k out e T d
  let ?o = "if ign then out else out @ t"
  let ?R = "if ign then (T, out) else sem_body (TextItem t b) (T, out)"
  from body_scannedD[OF assms(2), where ign=ign and cur=cur and k=k and out="?o" and e=e and T=T and d=d]
  obtain e' where e': "\<And>n r. consume_next n ign cur (St k (snd ?R) e' (fst ?R) d) = Some r \<Longrightarrow>
      \<exists>m. consume_next m ign cur (St (render_body b @ k) ?o e T d) = Some r"
    by (auto split: if_splits)
  show "\<exists>e'. \<forall>n r. consume_next n ign cur (St k (snd ?R) e' (fst ?R) d) = Some r \<longrightarrow>
        (\<exists>m. consume_next m ign cur (St (render_body (TextItem t b) @ k) out e T d) = Some r)"
  proof (intro exI[of _ e'] allI impI)
    fix n r
    assume "consume_next n ign cur (St k (snd ?R) e' (fst ?R) d) = Some r"
    from e'[OF this] obtain m where
      "consume_next m ign cur (St (render_body b @ k) ?o e T d) = Some r" by blast
    with consume_next_plain[of t m ign cur "render_body b @ k" out e T d] assms(1)
    have "consume_next (length t + m) ign cur (St (render_body (TextItem t b) @ k) out e T d) = Some r"
      by (simp add: wf_text_def)
    then show "\<exists>m. consume_next m ign cur (St (render_body (TextItem t b) @ k) out e T d) = Some r"
      by blast
  qed
qed

lemma NL_not_marker: "NL \<noteq> PP_START"
  by (simp add: NL_def PP_START_def)

lemma wf_tag_plain: "wf_tag t \<Longrightarrow> PP_START \<notin> set (t @ [NL])"
  using NL_not_marker by (auto simp: wf_tag_def list_all_iff)

lemma wf_guard_plain: "wf_guard g \<Longrightarrow> wf_text (g @ [NL])"
  using NL_not_marker by (auto simp: wf_guard_def wf_text_def)

lemma consume_next_define:
  "wf_tag t \<Longrightarrow>
     consume_next (Suc (length t + 1 + n)) ign cur
        (St (''#define '' @ t @ NL # k) out e T d) =
     consume_next (if ign then n else length t + 1 + n) ign cur
        (St k out e (if ign then T else insert t T) d)"
proof (cases ign)
  case True
  assume "wf_tag t"
  from consume_next_plain[OF wf_tag_plain[OF this], of n True cur k out e T d] True
  show ?thesis
    using extract_operation_keywords(5)[of "t @ NL # k"] by (simp add: PP_START_def)
next
  case False
  assume "wf_tag t"
  from handle_define_wf[OF this, of k out e T d] False show ?thesis
    using extract_operation_keywords(5)[of "t @ NL # k"] by (simp add: PP_START_def)
qed

lemma consume_next_undef:
  "wf_tag t \<Longrightarrow>
     consume_next (Suc (length t + 1 + n)) ign cur
        (St (''#undef '' @ t @ NL # k) out e T d) =
     consume_next (if ign then n else length t + 1 + n) ign cur
        (St k out e (if ign then T else T - {t}) d)"
proof (cases ign)
  case True
  assume "wf_tag t"
  from consume_next_plain[OF wf_tag_plain[OF this], of n True cur k out e T d] True
  show ?thesis
    using extract_operation_keywords(6)[of "t @ NL # k"] by (simp add: PP_START_def)
next
  case False
  assume "wf_tag t"
  from handle_undef_wf[OF this, of k out e T d] False show ?thesis
    using extract_operation_keywords(6)[of "t @ NL # k"] by (simp add: PP_START_def)
qed

lemma scanned_Define:
  assumes "wf_tag t" "body_scanned b"
  shows "body_scanned (DefineItem t b)"
  unfolding body_scanned_def
proof (intro allI)
  fix ign cur k out e T d
  let ?T = "if ign then T else insert t T"
  let ?R = "if ign then (T, out) else sem_body (DefineItem t b) (T, out)"
  from body_scannedD[OF assms(2), where ign=ign and cur=cur and k=k and out=out and e=e and T="?T" and d=d]
  obtain e' where e': "\<And>n r. consume_next n ign cur (St k (snd ?R) e' (fst ?R) d) = Some r \<Longrightarrow>
      \<exists>m. consume_next m ign cur (St (render_body b @ k) out e ?T d) = Some r"
    by (auto split: if_splits)
  show "\<exists>e'. \<forall>n r. consume_next n ign cur (St k (snd ?R) e' (fst ?R) d) = Some r \<longrightarrow>
        (\<exists>m. consume_next m ign cur (St (render_body (DefineItem t b) @ k) out e T d) = Some r)"
  proof (intro exI[of _ e'] allI impI)
    fix n r
    assume "consume_next n ign cur (St k (snd ?R) e' (fst ?R) d) = Some r"
    from e'[OF this] obtain m where
      m: "consume_next m ign cur (St (render_body b @ k) out e ?T d) = Some r" by blast
    then have "consume_next (if ign then m else length t + 1 + m) ign cur
        (St (render_body b @ k) out e ?T d) = Some r"
      by (auto intro: consume_next_fuel_mono simp del: consume_next.simps)
    with consume_next_define[OF assms(1), of m ign cur "render_body b @ k" out e T d]
    have "consume_next (Suc (length t + 1 + m)) ign cur
        (St (render_body (DefineItem t b) @ k) out e T d) = Some r"
      by (simp del: consume_next.simps)
    then show "\<exists>m. consume_next m ign cur (St (render_body (DefineItem t b) @ k) out e T d) = Some r"
      by blast
  qed
qed

lemma scanned_Undef:
  assumes "wf_tag t" "body_scanned b"
  shows "body_scanned (UndefItem t b)"
  unfolding body_scanned_def
proof (intro allI)
  fix ign cur k out e T d
  let ?T = "if ign then T else T - {t}"
  let ?R = "if ign then (T, out) else sem_body (UndefItem t b) (T, out)"
  from body_scannedD[OF assms(2), where ign=ign and cur=cur and k=k and out=out and e=e and T="?T" and d=d]
  obtain e' where e': "\<And>n r. consume_next n ign cur (St k (snd ?R) e' (fst ?R) d) = Some r \<Longrightarrow>
      \<exists>m. consume_next m ign cur (St (render_body b @ k) out e ?T d) = Some r"
    by (auto split: if_splits)
  show "\<exists>e'. \<forall>n r. consume_next n ign cur (St k (snd ?R) e' (fst ?R) d) = Some r \<longrightarrow>
        (\<exists>m. consume_next m ign cur (St (render_body (UndefItem t b) @ k) out e T d) = Some r)"
  proof (intro exI[of _ e'] allI impI)
    fix n r
    assume "consume_next n ign cur (St k (snd ?R) e' (fst ?R) d) = Some r"
    from e'[OF this] obtain m where
      m: "consume_next m ign cur (St (render_body b @ k) out e ?T d) = Some r" by blast
    then have "consume_next (if ign then m else length t + 1 + m) ign cur
        (St (render_body b @ k) out e ?T d) = Some r"
      by (auto intro: consume_next_fuel_mono simp del: consume_next.simps)
    with consume_next_undef[OF assms(1), of m ign cur "render_body b @ k" out e T d]
    have "consume_next (Suc (length t + 1 + m)) ign cur
        (St (render_body (UndefItem t b) @ k) out e T d) = Some r"
      by (simp del: consume_next.simps)
    then show "\<exists>m. consume_next m ign cur (St (render_body (UndefItem t b) @ k) out e T d) = Some r"
      by blast
  qed
qed

lemma scanned_If:
  assumes "block_handled g b1 ch" "body_scanned b"
  shows "body_scanned (IfItem g b1 ch b)"
  unfolding body_scanned_def
proof (intro allI)
  fix ign cur k out e T d
  let ?B = "if ign then (T, out) else if guard_value T g then sem_body b1 (T, out)
            else sem_chain ch (T, out)"
  let ?R = "if ign then (T, out) else sem_body (IfItem g b1 ch b) (T, out)"
  from block_handledD[OF assms(1), where ign=ign and k="render_body b @ k" and out=out and e=e
      and T=T and d=d]
  obtain e1 m1 where h: "handle_if m1 ign
      (St (g @ NL # render_body b1 @ render_chain ch @ render_body b @ k) out e T d) =
      Some (True, St (render_body b @ k) (snd ?B) e1 (fst ?B) d)"
    by blast
  have R: "?R = (if ign then ?B else sem_body b ?B)" by simp
  from body_scannedD[OF assms(2), where ign=ign and cur=cur and k=k and out="snd ?B" and e=e1
      and T="fst ?B" and d=d]
  obtain e' where e': "\<And>n r. consume_next n ign cur (St k (snd ?R) e' (fst ?R) d) = Some r \<Longrightarrow>
      \<exists>m. consume_next m ign cur (St (render_body b @ k) (snd ?B) e1 (fst ?B) d) = Some r"
    unfolding R by (auto split: if_splits)
  show "\<exists>e'. \<forall>n r. consume_next n ign cur (St k (snd ?R) e' (fst ?R) d) = Some r \<longrightarrow>
        (\<exists>m. consume_next m ign cur (St (render_body (IfItem g b1 ch b) @ k) out e T d) = Some r)"
  proof (intro exI[of _ e'] allI impI)
    fix n r
    assume "consume_next n ign cur (St k (snd ?R) e' (fst ?R) d) = Some r"
    from e'[OF this] obtain m2 where
      m2: "consume_next m2 ign cur (St (render_body b @ k) (snd ?B) e1 (fst ?B) d) = Some r"
      by blast
    let ?M = "max m1 m2"
    from handle_if_fuel_mono[OF h, of ?M]
    have h': "handle_if ?M ign
      (St (g @ NL # render_body b1 @ render_chain ch @ render_body b @ k) out e T d) =
      Some (True, St (render_body b @ k) (snd ?B) e1 (fst ?B) d)" by simp
    from consume_next_fuel_mono[OF m2, of ?M]
    have c': "consume_next ?M ign cur (St (render_body b @ k) (snd ?B) e1 (fst ?B) d) = Some r"
      by simp
    have "consume_next (Suc ?M) ign cur (St (render_body (IfItem g b1 ch b) @ k) out e T d) = Some r"
      using extract_operation_keywords(1)[of "g @ NL # render_body b1 @ render_chain ch @ render_body b @ k"]
        h' c'
      by (simp add: PP_START_def del: consume_next.simps handle_if.simps
          add: consume_next.simps(2)[of ?M])
    then show "\<exists>m. consume_next m ign cur (St (render_body (IfItem g b1 ch b) @ k) out e T d) = Some r"
      by blast
  qed
qed

subsection \<open>The loop of a block\<close>

lemma consume_next_branch_keywords:
  "consume_next (Suc n) f cur (St (''#endif'' @ NL # k) out e T d) =
     Some (True, Op_Endif, St k out e T d)"
  "consume_next (Suc n) f cur (St (''#else'' @ NL # k) out e T d) =
     Some (True, Op_Else, St k out e T d)"
  "consume_next (Suc n) f cur (St (''#elif '' @ k) out e T d) =
     Some (True, Op_Elif, St k out e T d)"
  using extract_operation_keywords(2)[of k] extract_operation_keywords(3)[of k]
    extract_operation_keywords(4)[of k]
  by (simp_all add: PP_START_def)

lemma loop_step_endif:
  "consume_next m (ign \<or> once \<or> \<not> cond) cur st = Some (True, Op_Endif, st') \<Longrightarrow>
     handle_if_loop (Suc m) ign cond once cur st = Some st'"
  by simp

lemma loop_step_fired:
  "consume_next m (ign \<or> once \<or> \<not> cond) cur st = Some (True, c', st') \<Longrightarrow>
   c' \<noteq> Op_Endif \<Longrightarrow> cond \<or> once \<Longrightarrow>
     handle_if_loop (Suc m) ign cond once cur st = handle_if_loop m ign False True c' st'"
  by auto

lemma loop_step_else:
  "consume_next m (ign \<or> once \<or> \<not> cond) cur st = Some (True, Op_Else, st') \<Longrightarrow>
   \<not> cond \<Longrightarrow> \<not> once \<Longrightarrow>
     handle_if_loop (Suc m) ign cond once cur st = handle_if_loop m ign True False Op_Else st'"
  by auto

lemma loop_step_elif:
  "consume_next m (ign \<or> once \<or> \<not> cond) cur st = Some (True, Op_Elif, st') \<Longrightarrow>
   \<not> cond \<Longrightarrow> \<not> once \<Longrightarrow> handle_condition st' = (c, st'') \<Longrightarrow>
     handle_if_loop (Suc m) ign cond once cur st = handle_if_loop m ign c False Op_Elif st''"
  by auto

text \<open>The scan of a branch body up to the keyword that ends the branch.\<close>

lemma body_then_keyword:
  assumes "body_scanned b"
    and "\<And>n out e T d. consume_next (Suc n) f cur (St (kw @ k) out e T d) =
           Some (True, op, St k out e T d)"
  shows "\<exists>e' m. consume_next m f cur (St (render_body b @ kw @ k) out e T d) =
     Some (True, op, St k (snd (if f then (T, out) else sem_body b (T, out))) e'
                       (fst (if f then (T, out) else sem_body b (T, out))) d)"
proof -
  let ?R = "if f then (T, out) else sem_body b (T, out)"
  from body_scannedD[OF assms(1), where ign=f and cur=cur and k="kw @ k" and out=out and e=e
      and T=T and d=d]
  obtain e' where e': "\<And>n r. consume_next n f cur (St (kw @ k) (snd ?R) e' (fst ?R) d) = Some r \<Longrightarrow>
      \<exists>m. consume_next m f cur (St (render_body b @ kw @ k) out e T d) = Some r"
    by blast
  from e'[OF assms(2)[of 0]] show ?thesis by blast
qed

lemma loop_Endif:
  assumes "body_scanned b"
  shows "chain_looped b Endif"
  unfolding chain_looped_def
proof (intro allI impI)
  fix ign cond once cur k out e T d
  assume nc: "\<not> (once \<and> cond)"
  let ?f = "ign \<or> once \<or> \<not> cond"
  let ?S = "if ?f then (T, out) else sem_body b (T, out)"
  let ?R = "if ign then (T, out) else if cond then sem_body b (T, out)
            else if once then (T, out) else sem_chain Endif (T, out)"
  have kw: "consume_next (Suc n) ?f cur (St ((''#endif'' @ [NL]) @ k) out' e' T' d') =
      Some (True, Op_Endif, St k out' e' T' d')" for n out' e' T' d'
    using consume_next_branch_keywords(1)[of n ?f cur k out' e' T' d']
    by (simp del: consume_next.simps)
  from body_then_keyword[OF assms kw, where out=out and e=e and T=T and d=d]
  obtain e' m where "consume_next m ?f cur (St (render_body b @ (''#endif'' @ [NL]) @ k) out e T d) =
     Some (True, Op_Endif, St k (snd ?S) e' (fst ?S) d)"
    by (auto simp del: consume_next.simps)
  from loop_step_endif[OF this]
  have L: "handle_if_loop (Suc m) ign cond once cur (St (render_body b @ render_chain Endif @ k) out e T d) =
     Some (St k (snd ?S) e' (fst ?S) d)"
    by (simp del: handle_if_loop.simps)
  have eq: "?S = ?R" using nc by auto
  from L have "handle_if_loop (Suc m) ign cond once cur
      (St (render_body b @ render_chain Endif @ k) out e T d) = Some (St k (snd ?R) e' (fst ?R) d)"
    by (simp only: eq)
  then show "\<exists>e' m. handle_if_loop m ign cond once cur
      (St (render_body b @ render_chain Endif @ k) out e T d) = Some (St k (snd ?R) e' (fst ?R) d)"
    by blast
qed

lemma loop_fired:
  assumes "consume_next m1 (ign \<or> once \<or> \<not> cond) cur st = Some (True, c', st')"
    and "c' \<noteq> Op_Endif" and "cond \<or> once"
    and "handle_if_loop m2 ign False True c' st' = Some X"
  shows "\<exists>m. handle_if_loop m ign cond once cur st = Some X"
proof -
  let ?M = "max m1 m2"
  from consume_next_fuel_mono[OF assms(1), of ?M]
  have "consume_next ?M (ign \<or> once \<or> \<not> cond) cur st = Some (True, c', st')" by simp
  from loop_step_fired[OF this assms(2,3)] handle_if_loop_fuel_mono[OF assms(4), of ?M]
  have "handle_if_loop (Suc ?M) ign cond once cur st = Some X"
    by (simp del: handle_if_loop.simps)
  then show ?thesis by blast
qed

lemma loop_else:
  assumes "consume_next m1 (ign \<or> once \<or> \<not> cond) cur st = Some (True, Op_Else, st')"
    and "\<not> cond" and "\<not> once"
    and "handle_if_loop m2 ign True False Op_Else st' = Some X"
  shows "\<exists>m. handle_if_loop m ign cond once cur st = Some X"
proof -
  let ?M = "max m1 m2"
  from consume_next_fuel_mono[OF assms(1), of ?M]
  have "consume_next ?M (ign \<or> once \<or> \<not> cond) cur st = Some (True, Op_Else, st')" by simp
  from loop_step_else[OF this assms(2,3)] handle_if_loop_fuel_mono[OF assms(4), of ?M]
  have "handle_if_loop (Suc ?M) ign cond once cur st = Some X"
    by (simp del: handle_if_loop.simps)
  then show ?thesis by blast
qed

lemma loop_elif:
  assumes "consume_next m1 (ign \<or> once \<or> \<not> cond) cur st = Some (True, Op_Elif, st')"
    and "\<not> cond" and "\<not> once" and "handle_condition st' = (c, st'')"
    and "handle_if_loop m2 ign c False Op_Elif st'' = Some X"
  shows "\<exists>m. handle_if_loop m ign cond once cur st = Some X"
proof -
  let ?M = "max m1 m2"
  from consume_next_fuel_mono[OF assms(1), of ?M]
  have "consume_next ?M (ign \<or> once \<or> \<not> cond) cur st = Some (True, Op_Elif, st')" by simp
  from loop_step_elif[OF this assms(2,3,4)] handle_if_loop_fuel_mono[OF assms(5), of ?M]
  have "handle_if_loop (Suc ?M) ign cond once cur st = Some X"
    by (simp del: handle_if_loop.simps)
  then show ?thesis by blast
qed

lemma loop_Else:
  assumes "body_scanned b" "chain_looped b2 Endif"
  shows "chain_looped b (ElseBranch b2)"
  unfolding chain_looped_def
proof (intro allI impI)
  fix ign cond once cur k out e T d
  assume nc: "\<not> (once \<and> cond)"
  let ?f = "ign \<or> once \<or> \<not> cond"
  let ?S = "if ?f then (T, out) else sem_body b (T, out)"
  let ?R = "if ign then (T, out) else if cond then sem_body b (T, out)
            else if once then (T, out) else sem_chain (ElseBranch b2) (T, out)"
  let ?k = "render_body b2 @ render_chain Endif @ k"
  have kw: "consume_next (Suc n) ?f cur (St ((''#else'' @ [NL]) @ ?k) out' e' T' d') =
      Some (True, Op_Else, St ?k out' e' T' d')" for n out' e' T' d'
    using consume_next_branch_keywords(2)[of n ?f cur ?k out' e' T' d']
    by (simp del: consume_next.simps)
  from body_then_keyword[OF assms(1) kw, where out=out and e=e and T=T and d=d]
  obtain e1 m1 where
    s: "consume_next m1 ?f cur (St (render_body b @ render_chain (ElseBranch b2) @ k) out e T d) =
     Some (True, Op_Else, St ?k (snd ?S) e1 (fst ?S) d)"
    by (auto simp del: consume_next.simps)
  show "\<exists>e' m. handle_if_loop m ign cond once cur
      (St (render_body b @ render_chain (ElseBranch b2) @ k) out e T d) =
      Some (St k (snd ?R) e' (fst ?R) d)"
  proof (cases "cond \<or> once")
    case True
    from chain_loopedD[OF assms(2), where once=True and cond=False and ign=ign and cur=Op_Else
        and k=k and out="snd ?S" and e=e1 and T="fst ?S" and d=d]
    obtain e2 m2 where l: "handle_if_loop m2 ign False True Op_Else (St ?k (snd ?S) e1 (fst ?S) d) =
       Some (St k (snd ?S) e2 (fst ?S) d)"
      by (auto simp del: handle_if_loop.simps split: if_splits)
    have eq: "?S = ?R" using nc True by auto
    from loop_fired[OF s _ True l] obtain m where
      "handle_if_loop m ign cond once cur
        (St (render_body b @ render_chain (ElseBranch b2) @ k) out e T d) =
       Some (St k (snd ?S) e2 (fst ?S) d)" by auto
    then have "handle_if_loop m ign cond once cur
        (St (render_body b @ render_chain (ElseBranch b2) @ k) out e T d) =
       Some (St k (snd ?R) e2 (fst ?R) d)" by (simp only: eq)
    then show ?thesis by blast
  next
    case False
    then have c: "\<not> cond" "\<not> once" by auto
    let ?E = "if ign then (T, out) else sem_body b2 (T, out)"
    from c have S: "?S = (T, out)" by simp
    from chain_loopedD[OF assms(2), where once=False and cond=True and ign=ign and cur=Op_Else
        and k=k and out=out and e=e1 and T=T and d=d]
    obtain e2 m2 where l: "handle_if_loop m2 ign True False Op_Else (St ?k out e1 T d) =
       Some (St k (snd ?E) e2 (fst ?E) d)"
      by (auto simp del: handle_if_loop.simps split: if_splits)
    from s S have s': "consume_next m1 ?f cur
        (St (render_body b @ render_chain (ElseBranch b2) @ k) out e T d) =
       Some (True, Op_Else, St ?k out e1 T d)" by (simp del: consume_next.simps)
    have eq: "?E = ?R" using c by auto
    from loop_else[OF s' c l] obtain m where
      "handle_if_loop m ign cond once cur
        (St (render_body b @ render_chain (ElseBranch b2) @ k) out e T d) =
       Some (St k (snd ?E) e2 (fst ?E) d)" by auto
    then have "handle_if_loop m ign cond once cur
        (St (render_body b @ render_chain (ElseBranch b2) @ k) out e T d) =
       Some (St k (snd ?R) e2 (fst ?R) d)" by (simp only: eq)
    then show ?thesis by blast
  qed
qed

lemma loop_Elif:
  assumes "wf_guard g" "body_scanned b" "body_scanned b2"
    and "\<And>b'. body_scanned b' \<Longrightarrow> chain_looped b' ch"
  shows "chain_looped b (ElifBranch g b2 ch)"
  unfolding chain_looped_def
proof (intro allI impI)
  fix ign cond once cur k out e T d
  assume nc: "\<not> (once \<and> cond)"
  let ?f = "ign \<or> once \<or> \<not> cond"
  let ?S = "if ?f then (T, out) else sem_body b (T, out)"
  let ?R = "if ign then (T, out) else if cond then sem_body b (T, out)
            else if once then (T, out) else sem_chain (ElifBranch g b2 ch) (T, out)"
  let ?k2 = "render_body b2 @ render_chain ch @ k"
  let ?k = "g @ NL # ?k2"
  let ?in = "render_body b @ render_chain (ElifBranch g b2 ch) @ k"
  have kw: "consume_next (Suc n) ?f cur (St (''#elif '' @ ?k) out' e' T' d') =
      Some (True, Op_Elif, St ?k out' e' T' d')" for n out' e' T' d'
    using consume_next_branch_keywords(3)[of n ?f cur ?k out' e' T' d']
    by (simp del: consume_next.simps)
  from body_then_keyword[OF assms(2) kw, where out=out and e=e and T=T and d=d]
  obtain e1 m1 where
    s: "consume_next m1 ?f cur (St ?in out e T d) =
     Some (True, Op_Elif, St ?k (snd ?S) e1 (fst ?S) d)"
    by (auto simp del: consume_next.simps)
  show "\<exists>e' m. handle_if_loop m ign cond once cur (St ?in out e T d) =
      Some (St k (snd ?R) e' (fst ?R) d)"
  proof (cases "cond \<or> once")
    case True
    have "body_scanned (TextItem (g @ [NL]) b2)"
      using scanned_Text[OF wf_guard_plain[OF assms(1)] assms(3)] .
    from chain_loopedD[OF assms(4)[OF this], where once=True and cond=False and ign=ign
        and cur=Op_Elif and k=k and out="snd ?S" and e=e1 and T="fst ?S" and d=d]
    obtain e2 m2 where l: "handle_if_loop m2 ign False True Op_Elif (St ?k (snd ?S) e1 (fst ?S) d) =
       Some (St k (snd ?S) e2 (fst ?S) d)"
      by (auto simp del: handle_if_loop.simps split: if_splits)
    have eq: "?S = ?R" using nc True by auto
    from loop_fired[OF s _ True l] obtain m where
      "handle_if_loop m ign cond once cur (St ?in out e T d) =
       Some (St k (snd ?S) e2 (fst ?S) d)" by auto
    then have "handle_if_loop m ign cond once cur (St ?in out e T d) =
       Some (St k (snd ?R) e2 (fst ?R) d)" by (simp only: eq)
    then show ?thesis by blast
  next
    case False
    then have c: "\<not> cond" "\<not> once" by auto
    let ?E = "if ign then (T, out) else if guard_value T g then sem_body b2 (T, out)
              else sem_chain ch (T, out)"
    from c have S: "?S = (T, out)" by simp
    from handle_condition_guard[OF assms(1), of ?k2 out e1 T d]
    obtain e2 where hc: "handle_condition (St ?k out e1 T d) =
        (guard_value T g, St ?k2 out e2 T d)" by blast
    from chain_loopedD[OF assms(4)[OF assms(3)], where once=False and cond="guard_value T g"
        and ign=ign and cur=Op_Elif and k=k and out=out and e=e2 and T=T and d=d]
    obtain e3 m2 where l: "handle_if_loop m2 ign (guard_value T g) False Op_Elif (St ?k2 out e2 T d) =
       Some (St k (snd ?E) e3 (fst ?E) d)"
      by (auto simp del: handle_if_loop.simps split: if_splits)
    from s S have s': "consume_next m1 ?f cur (St ?in out e T d) =
       Some (True, Op_Elif, St ?k out e1 T d)" by (simp del: consume_next.simps)
    have eq: "?E = ?R" using c by auto
    from loop_elif[OF s' c hc l] obtain m where
      "handle_if_loop m ign cond once cur (St ?in out e T d) =
       Some (St k (snd ?E) e3 (fst ?E) d)" by auto
    then have "handle_if_loop m ign cond once cur (St ?in out e T d) =
       Some (St k (snd ?R) e3 (fst ?R) d)" by (simp only: eq)
    then show ?thesis by blast
  qed
qed

lemma block_handledI:
  assumes "wf_guard g" "body_scanned b"
    and "\<And>b'. body_scanned b' \<Longrightarrow> chain_looped b' ch"
  shows "block_handled g b ch"
  unfolding block_handled_def
proof (intro allI)
  fix ign k out e T d
  let ?R = "if ign then (T, out) else if guard_value T g then sem_body b (T, out)
            else sem_chain ch (T, out)"
  let ?k1 = "render_body b @ render_chain ch @ k"
  show "\<exists>e' m. handle_if m ign (St (g @ NL # ?k1) out e T d) =
      Some (True, St k (snd ?R) e' (fst ?R) d)"
  proof (cases ign)
    case True
    have "body_scanned (TextItem (g @ [NL]) b)"
      using scanned_Text[OF wf_guard_plain[OF assms(1)] assms(2)] .
    from chain_loopedD[OF assms(3)[OF this], where once=False and cond=False and ign=True
        and cur=Op_If and k=k and out=out and e=e and T=T and d="Suc d"]
    obtain e' m where l: "handle_if_loop m True False False Op_If (St (g @ NL # ?k1) out e T (Suc d)) =
       Some (St k out e' T (Suc d))"
      by (auto simp del: handle_if_loop.simps)
    then have "handle_if (Suc m) ign (St (g @ NL # ?k1) out e T d) = Some (True, St k out e' T d)"
      using True
      by (simp add: handle_if_condition_def enter_block_def leave_block_def del: handle_if_loop.simps)
    with True show ?thesis by (auto simp del: handle_if.simps)
  next
    case False
    from handle_condition_guard[OF assms(1), of ?k1 out e T d]
    obtain e1 where hc: "handle_condition (St (g @ NL # ?k1) out e T d) =
        (guard_value T g, St ?k1 out e1 T d)" by blast
    from chain_loopedD[OF assms(3)[OF assms(2)], where once=False and cond="guard_value T g"
        and ign=False and cur=Op_If and k=k and out=out and e=e1 and T=T and d="Suc d"]
    obtain e' m where l: "handle_if_loop m False (guard_value T g) False Op_If (St ?k1 out e1 T (Suc d)) =
       Some (St k (snd ?R) e' (fst ?R) (Suc d))"
      using False by (auto simp del: handle_if_loop.simps split: if_splits)
    with hc False
    have "handle_if (Suc m) ign (St (g @ NL # ?k1) out e T d) = Some (True, St k (snd ?R) e' (fst ?R) d)"
      by (simp add: handle_if_condition_def enter_block_def leave_block_def del: handle_if_loop.simps)
    then show ?thesis by blast
  qed
qed

lemma wf_scanned:
  "wf_body b \<Longrightarrow> body_scanned b"
  "wf_chain ch \<Longrightarrow> body_scanned b' \<Longrightarrow> chain_looped b' ch"
proof (induction b and ch arbitrary: and b')
  case End
  show ?case by (rule scanned_End)
next
  case (TextItem t b)
  then show ?case by (simp add: scanned_Text)
next
  case (DefineItem t b)
  then show ?case by (simp add: scanned_Define)
next
  case (UndefItem t b)
  then show ?case by (simp add: scanned_Undef)
next
  case (IfItem g b1 ch b)
  then have "block_handled g b1 ch" by (intro block_handledI) auto
  with IfItem show ?case by (simp add: scanned_If)
next
  case Endif
  from Endif.prems(2) show ?case by (rule loop_Endif)
next
  case (ElseBranch b)
  from ElseBranch.prems(1) have "body_scanned b" by (simp add: ElseBranch.IH)
  then have "chain_looped b Endif" by (rule loop_Endif)
  with ElseBranch.prems(2) show ?case by (rule loop_Else)
next
  case (ElifBranch g b ch)
  from ElifBranch.prems(1) have g: "wf_guard g" and b: "body_scanned b"
    and ch: "\<And>b'. body_scanned b' \<Longrightarrow> chain_looped b' ch"
    by (simp_all add: ElifBranch.IH)
  from g ElifBranch.prems(2) b ch show ?case by (rule loop_Elif)
qed

lemma chain_select_facts:
  fixes b :: Body
  shows "b = b"
    and "sem_chain ch s = (case chain_select (fst s) ch of None \<Rightarrow> s | Some b' \<Rightarrow> sem_body b' s) \<and>
         (has_else ch \<longrightarrow> chain_select T ch \<noteq> None)"
  by (induction b and ch) auto

lemma sem_chain_select:
  "sem_chain ch s = (case chain_select (fst s) ch of None \<Rightarrow> s | Some b \<Rightarrow> sem_body b s)"
  using chain_select_facts(2) by blast

lemma has_else_select: "has_else ch \<Longrightarrow> chain_select T ch \<noteq> None"
  using chain_select_facts(2) by blast

lemma chain_runs_first_true_branch:
  assumes "wf_guard g" "wf_body b" "wf_chain ch"
  shows "(\<exists>e' N. \<forall>n\<ge>N.
           handle_if n False (St (g @ NL # render_body b @ render_chain ch @ k) out e T d) =
             Some (True,
               case if_select T g b ch of
                 None \<Rightarrow> St k out e' T d
               | Some b' \<Rightarrow> St k (snd (sem_body b' (T, out))) e' (fst (sem_body b' (T, out))) d)) \<and>
         (has_else ch \<longrightarrow> if_select T g b ch \<noteq> None)"
proof
  let ?R = "if guard_value T g then sem_body b (T, out) else sem_chain ch (T, out)"
  have "block_handled g b ch"
    using assms wf_scanned by (intro block_handledI) auto
  from block_handledD[OF this, where ign=False and k=k and out=out and e=e and T=T and d=d]
  obtain e' m where h: "handle_if m False (St (g @ NL # render_body b @ render_chain ch @ k) out e T d) =
     Some (True, St k (snd ?R) e' (fst ?R) d)"
    by auto
  have "Some (True, St k (snd ?R) e' (fst ?R) d) = Some (True,
               case if_select T g b ch of
                 None \<Rightarrow> St k out e' T d
               | Some b' \<Rightarrow> St k (snd (sem_body b' (T, out))) e' (fst (sem_body b' (T, out))) d)"
    by (simp add: if_select_def sem_chain_select split: option.splits)
  with h have "\<forall>n\<ge>m. handle_if n False (St (g @ NL # render_body b @ render_chain ch @ k) out e T d) =
     Some (True,
               case if_select T g b ch of
                 None \<Rightarrow> St k out e' T d
               | Some b' \<Rightarrow> St k (snd (sem_body b' (T, out))) e' (fst (sem_body b' (T, out))) d)"
    using handle_if_fuel_mono by (metis (no_types, lifting))
  then show "\<exists>e' N. \<forall>n\<ge>N.
           handle_if n False (St (g @ NL # render_body b @ render_chain ch @ k) out e T d) =
             Some (True,
               case if_select T g b ch of
                 None \<Rightarrow> St k out e' T d
               | Some b' \<Rightarrow> St k (snd (sem_body b' (T, out))) e' (fst (sem_body b' (T, out))) d)"
    by blast
next
  show "has_else ch \<longrightarrow> if_select T g b ch \<noteq> None"
    using has_else_select by (auto simp: if_select_def)
qed

text \<open>
  Claim C3.  Take an \<open>if\<close>/\<open>elif\<close>/\<open>else\<close>/\<open>endif\<close> chain whose guards are lines without
  the marker and whose bodies are made of literal text, \<open>define\<close> and \<open>undef\<close> with a
  tag and nested blocks of the same kind, in an active context.  Then exactly one
  branch fires, the first in textual order whose guard evaluates true, the \<open>else\<close>
  branch when none does.  With enough fuel \<open>handle_if\<close> returns \<open>true\<close> with the stream
  after the \<open>endif\<close>, and the output and the tags are those of the body of that branch
  alone: the other bodies write nothing and their \<open>define\<close> and \<open>undef\<close> leave the tags
  as they are.
\<close>

theorem chain_emits_first_true_branch:
  assumes "wf_guard g" "wf_body b" "wf_chain ch" "has_else ch"
  shows "\<exists>b' e' N. if_select T g b ch = Some b' \<and>
           (\<forall>n\<ge>N.
              handle_if n False (St (g @ NL # render_body b @ render_chain ch @ k) out e T d) =
                Some (True, St k (snd (sem_body b' (T, out))) e' (fst (sem_body b' (T, out))) d))"
proof -
  from chain_runs_first_true_branch[OF assms(1-3), of k out e T d] assms(4)
  obtain b' e' N where s: "if_select T g b ch = Some b'"
    and "\<forall>n\<ge>N. handle_if n False (St (g @ NL # render_body b @ render_chain ch @ k) out e T d) =
             Some (True,
               case if_select T g b ch of
                 None \<Rightarrow> St k out e' T d
               | Some b' \<Rightarrow> St k (snd (sem_body b' (T, out))) e' (fst (sem_body b' (T, out))) d)"
    by blast
  then show ?thesis by auto
qed

theorem chain_emits_first_true_branch_witness:
  "wf_guard ''a'' \<and>
   wf_body (TextItem ''A'' (DefineItem ''x'' End)) \<and>
   wf_chain (ElifBranch ''b'' (DefineItem ''y'' (TextItem ''B'' End)) (ElseBranch (TextItem ''C'' End))) \<and>
   has_else (ElifBranch ''b'' (DefineItem ''y'' (TextItem ''B'' End)) (ElseBranch (TextItem ''C'' End))) \<and>
   if_select {''a'', ''b''} ''a'' (TextItem ''A'' (DefineItem ''x'' End))
      (ElifBranch ''b'' (DefineItem ''y'' (TextItem ''B'' End)) (ElseBranch (TextItem ''C'' End))) =
     Some (TextItem ''A'' (DefineItem ''x'' End)) \<and>
   (\<exists>e' N. \<forall>n\<ge>N.
      handle_if n False
        (St ''a\<newline>A#define x\<newline>#elif b\<newline>#define y\<newline>B#else\<newline>C#endif\<newline>Z'' [] []
           {''a'', ''b''} 0) =
        Some (True, St ''Z'' ''A'' e' {''x'', ''a'', ''b''} 0)) \<and>
   handle_if 12 False
        (St ''a\<newline>A#define x\<newline>#elif b\<newline>#define y\<newline>B#else\<newline>C#endif\<newline>Z'' [] []
           {''a'', ''b''} 0) =
        Some (True, St ''Z'' ''A'' [] {''x'', ''a'', ''b''} 0)"
proof -
  let ?b = "TextItem ''A'' (DefineItem ''x'' End)"
  let ?ch = "ElifBranch ''b'' (DefineItem ''y'' (TextItem ''B'' End)) (ElseBranch (TextItem ''C'' End))"
  let ?T = "{''a'', ''b''}"
  have w: "wf_guard ''a''" "wf_body ?b" "wf_chain ?ch" "has_else ?ch"
    by (simp_all add: wf_guard_def wf_text_def wf_tag_def NL_def PP_START_def isspace_def)
  have gv: "guard_value ?T ''a''" by code_simp
  then have sel: "if_select ?T ''a'' ?b ?ch = Some ?b" by (simp add: if_select_def)
  from chain_emits_first_true_branch[OF w, of ?T "''Z''" "[]" "[]" 0]
  obtain b' e' N where "if_select ?T ''a'' ?b ?ch = Some b'"
    and r: "\<forall>n\<ge>N. handle_if n False
        (St (''a'' @ NL # render_body ?b @ render_chain ?ch @ ''Z'') [] [] ?T 0) =
        Some (True, St ''Z'' (snd (sem_body b' (?T, []))) e' (fst (sem_body b' (?T, []))) 0)"
    by blast
  with sel have b': "b' = ?b" by simp
  have "\<forall>n\<ge>N. handle_if n False
        (St ''a\<newline>A#define x\<newline>#elif b\<newline>#define y\<newline>B#else\<newline>C#endif\<newline>Z'' [] [] ?T 0) =
        Some (True, St ''Z'' ''A'' e' {''x'', ''a'', ''b''} 0)"
    using r unfolding b' by (simp add: NL_def del: handle_if.simps)
  then have ex: "\<exists>e' N. \<forall>n\<ge>N. handle_if n False
        (St ''a\<newline>A#define x\<newline>#elif b\<newline>#define y\<newline>B#else\<newline>C#endif\<newline>Z'' [] [] ?T 0) =
        Some (True, St ''Z'' ''A'' e' {''x'', ''a'', ''b''} 0)"
    by blast
  have ev: "handle_if 12 False
        (St ''a\<newline>A#define x\<newline>#elif b\<newline>#define y\<newline>B#else\<newline>C#endif\<newline>Z'' [] [] ?T 0) =
        Some (True, St ''Z'' ''A'' [] {''x'', ''a'', ''b''} 0)"
    by code_simp
  show ?thesis by (intro conjI) (fact w sel ex ev)+
qed

end
